theory Spec2Isabelle
  imports Main "HOL-Library.AList"
begin

text \<open>
  A shallow embedding of \<^verbatim>\<open>LWWElementGraph.h\<close>: the last-writer-wins element set
  \<^verbatim>\<open>LWWElementSet<E, T>\<close> and the directed graph \<^verbatim>\<open>LWWElementGraph<E, T>\<close> built on it.
  The key type \<open>'e\<close> is arbitrary; the timestamp type \<open>'t\<close> is a linear order, which is
  what \<^verbatim>\<open><\<close>, \<^verbatim>\<open><=\<close>, \<^verbatim>\<open>>\<close> and \<^verbatim>\<open>std::max\<close> need. The member functions that change
  the object take the state and return the new one. A call that can throw returns a value
  of \<open>error + 'a\<close>.
\<close>

section \<open>Containers and failures\<close>

text \<open>
  A \<^verbatim>\<open>std::unordered_map<K, V>\<close> is an association list: the order of the list is
  the order in which a range-for loop visits the entries, which the C++ standard leaves
  open, so every statement below is made for an arbitrary order. The container keeps its
  keys pairwise distinct; \<open>distinct_keys\<close> states that.

  \<^item> \<^verbatim>\<open>m.find(k)\<close> is \<open>map_of m k\<close>;
  \<^item> \<^verbatim>\<open>m.at(k)\<close> is \<open>at m k\<close>, which throws \<^verbatim>\<open>std::out_of_range\<close> on a missing key;
  \<^item> \<^verbatim>\<open>m[k] = v\<close> is \<open>store m k v\<close>: an existing entry is overwritten where it
    stands, a new one is added (here at the end of the iteration order).
\<close>

datatype error = out_of_range

type_synonym ('k, 'v) unordered_map = "('k \<times> 'v) list"

definition distinct_keys :: "('k, 'v) unordered_map \<Rightarrow> bool" where
  "distinct_keys m = distinct (map fst m)"

definition at :: "('k, 'v) unordered_map \<Rightarrow> 'k \<Rightarrow> error + 'v" where
  "at m k = (case map_of m k of None \<Rightarrow> Inl out_of_range | Some v \<Rightarrow> Inr v)"

definition store :: "('k, 'v) unordered_map \<Rightarrow> 'k \<Rightarrow> 'v \<Rightarrow> ('k, 'v) unordered_map" where
  "store m k v = AList.update k v m"

text \<open>
  \<^verbatim>\<open>operator==\<close> of two unordered maps: the sizes agree and every entry of the left
  map is found in the right map under the same key with an equal value. The equality of
  the values is a parameter, since the edge map compares its values with the set's own
  \<^verbatim>\<open>operator==\<close>.
\<close>

definition umap_eq ::
  "('v \<Rightarrow> 'v \<Rightarrow> bool) \<Rightarrow> ('k, 'v) unordered_map \<Rightarrow> ('k, 'v) unordered_map \<Rightarrow> bool" where
  "umap_eq veq a b =
     (length a = length b \<and>
      list_all (\<lambda>(k, v). case map_of b k of None \<Rightarrow> False | Some w \<Rightarrow> veq v w) a)"

text \<open>Sequencing of computations that may throw, and the short-circuit operators.\<close>

definition and_then :: "error + 'a \<Rightarrow> ('a \<Rightarrow> error + 'b) \<Rightarrow> error + 'b" where
  "and_then m f = (case m of Inl x \<Rightarrow> Inl x | Inr a \<Rightarrow> f a)"

definition or_else :: "error + bool \<Rightarrow> error + bool \<Rightarrow> error + bool" where
  "or_else a b = and_then a (\<lambda>x. if x then Inr True else b)"

definition and_also :: "error + bool \<Rightarrow> error + bool \<Rightarrow> error + bool" where
  "and_also a b = and_then a (\<lambda>x. if x then b else Inr False)"

definition negate :: "error + bool \<Rightarrow> error + bool" where
  "negate a = and_then a (\<lambda>x. Inr (\<not> x))"

text \<open>A range-for loop over a container whose body may throw.\<close>

fun for_each :: "('a \<Rightarrow> 's \<Rightarrow> error + 's) \<Rightarrow> 'a list \<Rightarrow> 's \<Rightarrow> error + 's" where
  "for_each body [] s = Inr s"
| "for_each body (x # xs) s = and_then (body x s) (for_each body xs)"

section \<open>LWWElementSet\<close>

record ('e, 't) LWWElementSet =
  add :: "('e, 't) unordered_map"
  remove :: "('e, 't) unordered_map"

text \<open>A default-constructed set: both maps are empty.\<close>

definition empty_set :: "('e, 't) LWWElementSet" where
  "empty_set = \<lparr>add = [], remove = []\<rparr>"

definition AddExist :: "('e, 't) LWWElementSet \<Rightarrow> 'e \<Rightarrow> bool" where
  "AddExist s e = (map_of (add s) e \<noteq> None)"

definition RemoveExist :: "('e, 't) LWWElementSet \<Rightarrow> 'e \<Rightarrow> bool" where
  "RemoveExist s e = (map_of (remove s) e \<noteq> None)"

text \<open>
  \<^verbatim>\<open>Add\<close>: the branch on \<^verbatim>\<open>AddExist(e)\<close> and the read of \<^verbatim>\<open>add[e]\<close> in its true
  branch are one case distinction on the lookup.
\<close>

definition Add :: "('e, 't::linorder) LWWElementSet \<Rightarrow> 'e \<Rightarrow> 't \<Rightarrow> ('e, 't) LWWElementSet" where
  "Add s e t =
     (case map_of (add s) e of
        Some old \<Rightarrow> s\<lparr>add := store (add s) e (max old t)\<rparr>
      | None \<Rightarrow> s\<lparr>add := store (add s) e t\<rparr>)"

definition Remove :: "('e, 't::linorder) LWWElementSet \<Rightarrow> 'e \<Rightarrow> 't \<Rightarrow> ('e, 't) LWWElementSet" where
  "Remove s e t =
     (case map_of (remove s) e of
        Some old \<Rightarrow> s\<lparr>remove := store (remove s) e (max old t)\<rparr>
      | None \<Rightarrow> s\<lparr>remove := store (remove s) e t\<rparr>)"

definition AddTimestamp :: "('e, 't) LWWElementSet \<Rightarrow> 'e \<Rightarrow> error + 't" where
  "AddTimestamp s e = at (add s) e"

definition RemoveTimestamp :: "('e, 't) LWWElementSet \<Rightarrow> 'e \<Rightarrow> error + 't" where
  "RemoveTimestamp s e = at (remove s) e"

definition GetAdd :: "('e, 't) LWWElementSet \<Rightarrow> ('e, 't) unordered_map" where
  "GetAdd s = add s"

text \<open>
  \<^verbatim>\<open>Contains\<close> calls the two throwing accessors, so its model can throw as far as its
  type goes; that it never does is proved below.
\<close>

definition Contains :: "('e, 't::linorder) LWWElementSet \<Rightarrow> 'e \<Rightarrow> error + bool" where
  "Contains s e =
     (if \<not> AddExist s e then Inr False
      else if \<not> RemoveExist s e then Inr True
      else and_then (AddTimestamp s e) (\<lambda>a.
           and_then (RemoveTimestamp s e) (\<lambda>r. Inr (a > r))))"

text \<open>
  \<^verbatim>\<open>Merge\<close>: the two range-for loops over \<^verbatim>\<open>s.add\<close> and \<^verbatim>\<open>s.remove\<close>. In
  \<^verbatim>\<open>s.Merge(s)\<close> the loops run over the maps they assign to, but every key they assign is
  already present, so no entry is inserted and the iteration is not disturbed: passing the
  argument by value gives the same result.
\<close>

definition Merge ::
  "('e, 't::linorder) LWWElementSet \<Rightarrow> ('e, 't) LWWElementSet \<Rightarrow> ('e, 't) LWWElementSet" where
  "Merge s other =
     fold (\<lambda>(e, t) acc. Remove acc e t) (remove other)
       (fold (\<lambda>(e, t) acc. Add acc e t) (add other) s)"

text \<open>The set's \<^verbatim>\<open>operator==\<close>.\<close>

definition set_eq :: "('e, 't) LWWElementSet \<Rightarrow> ('e, 't) LWWElementSet \<Rightarrow> bool" where
  "set_eq s s' = (umap_eq (=) (add s) (add s') \<and> umap_eq (=) (remove s) (remove s'))"

section \<open>Histories of set operations\<close>

text \<open>
  A set is created empty and changed by \<^verbatim>\<open>Add\<close>, \<^verbatim>\<open>Remove\<close> and \<^verbatim>\<open>Merge\<close> only.
  \<open>run_ops\<close> replays such a history on the empty set; \<open>added ops e\<close> lists every
  add-timestamp the history applies to \<open>e\<close>, by a local \<^verbatim>\<open>Add\<close> or through the add map
  of a merged set, and \<open>removed ops e\<close> does the same for the remove-timestamps.
\<close>

datatype ('e, 't) set_op = OpAdd 'e 't | OpRemove 'e 't | OpMerge "('e, 't) LWWElementSet"

fun apply_op :: "('e, 't::linorder) LWWElementSet \<Rightarrow> ('e, 't) set_op \<Rightarrow> ('e, 't) LWWElementSet" where
  "apply_op s (OpAdd e t) = Add s e t"
| "apply_op s (OpRemove e t) = Remove s e t"
| "apply_op s (OpMerge other) = Merge s other"

definition run_ops :: "('e, 't::linorder) set_op list \<Rightarrow> ('e, 't) LWWElementSet" where
  "run_ops ops = fold (\<lambda>op s. apply_op s op) ops empty_set"

definition stamps_of :: "'e \<Rightarrow> ('e, 't) unordered_map \<Rightarrow> 't list" where
  "stamps_of e m = map snd (filter (\<lambda>p. fst p = e) m)"

fun adds_of :: "'e \<Rightarrow> ('e, 't) set_op \<Rightarrow> 't list" where
  "adds_of e (OpAdd e' t) = (if e' = e then [t] else [])"
| "adds_of e (OpRemove e' t) = []"
| "adds_of e (OpMerge other) = stamps_of e (add other)"

fun removes_of :: "'e \<Rightarrow> ('e, 't) set_op \<Rightarrow> 't list" where
  "removes_of e (OpAdd e' t) = []"
| "removes_of e (OpRemove e' t) = (if e' = e then [t] else [])"
| "removes_of e (OpMerge other) = stamps_of e (remove other)"

definition added :: "('e, 't) set_op list \<Rightarrow> 'e \<Rightarrow> 't list" where
  "added ops e = concat (map (adds_of e) ops)"

definition removed :: "('e, 't) set_op list \<Rightarrow> 'e \<Rightarrow> 't list" where
  "removed ops e = concat (map (removes_of e) ops)"

fun join_all :: "('t::linorder) option \<Rightarrow> 't list \<Rightarrow> 't option" where
  "join_all acc [] = acc"
| "join_all acc (t # ts) = join_all (Some (case acc of None \<Rightarrow> t | Some old \<Rightarrow> max old t)) ts"

text \<open>The join of two optional timestamps: the maximum where both are recorded.\<close>

definition join_opt :: "('t::linorder) option \<Rightarrow> 't option \<Rightarrow> 't option" where
  "join_opt a b =
     (case a of
        None \<Rightarrow> b
      | Some x \<Rightarrow> (case b of None \<Rightarrow> Some x | Some y \<Rightarrow> Some (max x y)))"

section \<open>LWWElementGraph\<close>

text \<open>
  \<^verbatim>\<open>E()\<close>, the value-initialised key that \<^verbatim>\<open>previous[e]\<close> inserts for a missing key, is
  \<open>default\<close>; for \<^verbatim>\<open>int\<close> keys it is \<open>0\<close>.
\<close>

instantiation int :: default
begin

definition default_int :: int where
  "default_int = 0"

instance ..

end

record ('e, 't) LWWElementGraph =
  vertices :: "('e, 't) LWWElementSet"
  edges :: "('e, ('e, 't) LWWElementSet) unordered_map"

definition empty_graph :: "('e, 't) LWWElementGraph" where
  "empty_graph = \<lparr>vertices = empty_set, edges = []\<rparr>"

definition AddVertex :: "('e, 't::linorder) LWWElementGraph \<Rightarrow> 'e \<Rightarrow> 't \<Rightarrow> ('e, 't) LWWElementGraph" where
  "AddVertex g e t = g\<lparr>vertices := Add (vertices g) e t\<rparr>"

definition RemoveVertex :: "('e, 't::linorder) LWWElementGraph \<Rightarrow> 'e \<Rightarrow> 't \<Rightarrow> ('e, 't) LWWElementGraph" where
  "RemoveVertex g e t = g\<lparr>vertices := Remove (vertices g) e t\<rparr>"

definition ContainsVertex :: "('e, 't::linorder) LWWElementGraph \<Rightarrow> 'e \<Rightarrow> error + bool" where
  "ContainsVertex g e = Contains (vertices g) e"

text \<open>
  \<^verbatim>\<open>edges[from]\<close> refers to the edge set stored under \<open>from\<close>, which \<^verbatim>\<open>operator[]\<close>
  creates empty when the key is missing. \<^verbatim>\<open>edges[from].Add(to, t)\<close> is therefore: read the
  set or the empty set, add to it, store it under \<open>from\<close>.
\<close>

definition edge_set :: "('e, 't) LWWElementGraph \<Rightarrow> 'e \<Rightarrow> ('e, 't) LWWElementSet" where
  "edge_set g from = (case map_of (edges g) from of None \<Rightarrow> empty_set | Some s \<Rightarrow> s)"

definition AddEdge :: "('e, 't::linorder) LWWElementGraph \<Rightarrow> 'e \<Rightarrow> 'e \<Rightarrow> 't \<Rightarrow> ('e, 't) LWWElementGraph" where
  "AddEdge g from to t = g\<lparr>edges := store (edges g) from (Add (edge_set g from) to t)\<rparr>"

definition RemoveEdge :: "('e, 't::linorder) LWWElementGraph \<Rightarrow> 'e \<Rightarrow> 'e \<Rightarrow> 't \<Rightarrow> ('e, 't) LWWElementGraph" where
  "RemoveEdge g from to t = g\<lparr>edges := store (edges g) from (Remove (edge_set g from) to t)\<rparr>"

text \<open>
  \<^verbatim>\<open>ContainsEdge\<close>, one \<open>and_then\<close> for each of the four \<^verbatim>\<open>if\<close> statements and for the
  read of \<^verbatim>\<open>addTimestamp\<close>. \<^verbatim>\<open>||\<close> and \<^verbatim>\<open>&&\<close> are \<open>or_else\<close> and \<open>and_also\<close>, which
  evaluate their second argument only when the first does not decide.
\<close>

definition ContainsEdge :: "('e, 't::linorder) LWWElementGraph \<Rightarrow> 'e \<Rightarrow> 'e \<Rightarrow> error + bool" where
  "ContainsEdge g from to =
     and_then (or_else (Inr (map_of (edges g) from = None))
                 (negate (and_then (at (edges g) from) (\<lambda>es. Contains es to))))
       (\<lambda>no_edge. if no_edge then Inr False else
     and_then (or_else (negate (ContainsVertex g from)) (negate (ContainsVertex g to)))
       (\<lambda>not_alive. if not_alive then Inr False else
     and_then (and_then (at (edges g) from) (\<lambda>es. AddTimestamp es to))
       (\<lambda>addTimestamp.
     and_then (or_else
                 (and_also (Inr (RemoveExist (vertices g) from))
                    (and_then (RemoveTimestamp (vertices g) from) (\<lambda>r. Inr (addTimestamp \<le> r))))
                 (and_also (Inr (RemoveExist (vertices g) to))
                    (and_then (RemoveTimestamp (vertices g) to) (\<lambda>r. Inr (addTimestamp \<le> r)))))
       (\<lambda>deleted. if deleted then Inr False else
     and_then (or_else
                 (and_then (AddTimestamp (vertices g) from) (\<lambda>a. Inr (addTimestamp < a)))
                 (and_then (AddTimestamp (vertices g) to) (\<lambda>a. Inr (addTimestamp < a))))
       (\<lambda>too_early. if too_early then Inr False else Inr True)))))"

text \<open>
  \<^verbatim>\<open>LWWElementGraph::Merge\<close>, named \<open>MergeGraph\<close> beside the set's \<open>Merge\<close>.
\<close>

definition MergeGraph ::
  "('e, 't::linorder) LWWElementGraph \<Rightarrow> ('e, 't) LWWElementGraph \<Rightarrow> ('e, 't) LWWElementGraph" where
  "MergeGraph g other =
     fold (\<lambda>(from, edge) acc. acc\<lparr>edges := store (edges acc) from (Merge (edge_set acc from) edge)\<rparr>)
       (edges other)
       (g\<lparr>vertices := Merge (vertices g) (vertices other)\<rparr>)"

text \<open>The result \<^verbatim>\<open>std::set<E>\<close> is a set; the two nested loops are \<open>for_each\<close>.\<close>

definition AllConnectedVertices :: "('e, 't::linorder) LWWElementGraph \<Rightarrow> 'e \<Rightarrow> error + 'e set" where
  "AllConnectedVertices g e =
     for_each (\<lambda>(from, edge) res.
        if from = e then
          for_each (\<lambda>(to, t) res.
             and_then (ContainsEdge g from to) (\<lambda>c. Inr (if c then insert to res else res)))
            (GetAdd edge) res
        else
          for_each (\<lambda>(to, t) res.
             and_then (and_also (Inr (to = e)) (ContainsEdge g from to))
               (\<lambda>c. Inr (if c then insert from res else res)))
            (GetAdd edge) res)
       (edges g) {}"

text \<open>
  \<^verbatim>\<open>AnyPath\<close>. The loop that walks back from \<open>to\<close> along \<open>previous\<close> stops only when it
  meets \<open>from\<close>, so on an arbitrary map it may run forever: \<open>path_back\<close> returns \<open>None\<close>
  then. \<^verbatim>\<open>previous[e]\<close> inserts \<^verbatim>\<open>E()\<close> under a missing key and returns it.
\<close>

partial_function (option) path_back ::
  "'e::default \<Rightarrow> ('e, 'e) unordered_map \<Rightarrow> 'e \<Rightarrow> 'e list \<Rightarrow> 'e list option" where
  "path_back from previous e path =
     (if e \<noteq> from then
        (case map_of previous e of
           Some p \<Rightarrow> path_back from previous p (path @ [e])
         | None \<Rightarrow> path_back from (store previous e default) default (path @ [e]))
      else Some (rev (path @ [e])))"

declare path_back.simps [code]

text \<open>
  The inner loop of the search, over the add map of the edge set of \<open>e\<close>: a neighbour not
  yet in \<open>previous\<close> and joined to \<open>e\<close> by a valid edge is recorded and queued.
\<close>

fun expand ::
  "('e, 't::linorder) LWWElementGraph \<Rightarrow> 'e \<Rightarrow> ('e, 't) unordered_map \<Rightarrow>
   'e list \<times> ('e, 'e) unordered_map \<Rightarrow> error + 'e list \<times> ('e, 'e) unordered_map" where
  "expand g e [] (queue, previous) = Inr (queue, previous)"
| "expand g e ((next, t) # rest) (queue, previous) =
     and_then (and_also (Inr (map_of previous next = None)) (ContainsEdge g e next))
       (\<lambda>fresh. if fresh then expand g e rest (queue @ [next], store previous next e)
                else expand g e rest (queue, previous))"

text \<open>
  The \<^verbatim>\<open>while\<close> loop. \<^verbatim>\<open>edges.at(e)\<close> throws when \<open>e\<close> has no entry in \<open>edges\<close>. The loop
  terminates: each round takes one vertex from the queue, and each vertex it queues is a
  key of some add map of \<open>edges\<close> (\<open>targets\<close>) that was not in \<open>previous\<close> before.
\<close>

definition targets :: "('e, 't) LWWElementGraph \<Rightarrow> 'e set" where
  "targets g = (\<Union>(from, edge) \<in> set (edges g). fst ` set (add edge))"

function bfs ::
  "('e::default, 't::linorder) LWWElementGraph \<Rightarrow> 'e \<Rightarrow> 'e \<Rightarrow> 'e list \<Rightarrow> ('e, 'e) unordered_map \<Rightarrow>
   (error + 'e list) option" where
  "bfs g from to [] previous = Some (Inr [])"
| "bfs g from to (e # queue) previous =
     (if e = to then map_option Inr (path_back from previous e [])
      else (case at (edges g) e of
              Inl x \<Rightarrow> Some (Inl x)
            | Inr es \<Rightarrow>
                (case expand g e (GetAdd es) (queue, previous) of
                   Inl x \<Rightarrow> Some (Inl x)
                 | Inr (queue', previous') \<Rightarrow> bfs g from to queue' previous')))"
  by pat_completeness auto
termination
proof (relation "measure (\<lambda>(g, from, to, queue, previous).
                   2 * card (targets g - fst ` set previous) + length queue)", goal_cases)
  case 1
  show ?case by simp
next
  case (2 g src dst e queue previous es qp queue' previous')
  have fin: "finite (targets g)" by (auto simp add: targets_def)
  have step: "2 * card (targets g - fst ` set p') + length q'
                \<le> 2 * card (targets g - fst ` set p) + length q"
    if "expand g e xs (q, p) = Inr (q', p')" "fst ` set xs \<subseteq> targets g" for xs q p q' p'
    using that
  proof (induction xs arbitrary: q p)
    case Nil
    then show ?case by simp
  next
    case (Cons x xs)
    obtain n t where x: "x = (n, t)" by (cases x)
    show ?case
    proof (cases "map_of p n = None \<and> ContainsEdge g e n = Inr True")
      case True
      then have rest: "expand g e xs (q @ [n], store p n e) = Inr (q', p')"
        using Cons.prems(1) by (simp add: x and_then_def and_also_def)
      have nin: "n \<in> targets g - fst ` set p"
        using True Cons.prems(2) by (auto simp add: x map_of_eq_None_iff)
      have "targets g - fst ` set (store p n e) = (targets g - fst ` set p) - {n}"
        by (auto simp add: store_def dom_update)
      then have "card (targets g - fst ` set (store p n e)) = card (targets g - fst ` set p) - 1"
        using nin fin by simp
      moreover have "card (targets g - fst ` set p) > 0"
        using nin fin by (metis card_gt_0_iff empty_iff finite_Diff)
      ultimately have "2 * card (targets g - fst ` set (store p n e)) + length (q @ [n])
                  \<le> 2 * card (targets g - fst ` set p) + length q"
        by simp
      then show ?thesis
        using Cons.IH [of "q @ [n]" "store p n e"] Cons.prems(2) rest by simp
    next
      case False
      then have "expand g e xs (q, p) = Inr (q', p')"
        using Cons.prems(1)
        by (auto simp add: x and_then_def and_also_def split: sum.splits if_splits)
      then show ?thesis
        using Cons.IH [of q p] Cons.prems(2) by simp
    qed
  qed
  from 2 have "(e, es) \<in> set (edges g)"
    by (auto simp add: at_def split: option.splits dest: map_of_SomeD)
  then have "fst ` set (GetAdd es) \<subseteq> targets g"
    by (auto simp add: targets_def GetAdd_def)
  moreover from 2 have "expand g e (GetAdd es) (queue, previous) = Inr (queue', previous')"
    by simp
  ultimately show ?case
    using step [of "GetAdd es" queue previous queue' previous'] by simp
qed

text \<open>
  The result of \<^verbatim>\<open>AnyPath\<close>: \<open>Some (Inr path)\<close> when it returns \<open>path\<close>, \<open>Some (Inl x)\<close>
  when it throws \<open>x\<close>, and \<open>None\<close> when it does not return.
\<close>

definition AnyPath ::
  "('e::default, 't::linorder) LWWElementGraph \<Rightarrow> 'e \<Rightarrow> 'e \<Rightarrow> (error + 'e list) option" where
  "AnyPath g from to =
     (case or_else (negate (ContainsVertex g from)) (negate (ContainsVertex g to)) of
        Inl x \<Rightarrow> Some (Inl x)
      | Inr True \<Rightarrow> Some (Inr [])
      | Inr False \<Rightarrow> bfs g from to [from] (store [] from from))"

text \<open>The graph's \<^verbatim>\<open>operator==\<close>.\<close>

definition graph_eq :: "('e, 't) LWWElementGraph \<Rightarrow> ('e, 't) LWWElementGraph \<Rightarrow> bool" where
  "graph_eq g g' = (set_eq (vertices g) (vertices g') \<and> umap_eq set_eq (edges g) (edges g'))"

section \<open>Well-formed states and the conditions of edge validity\<close>

text \<open>
  The states a program can hold: every \<^verbatim>\<open>unordered_map\<close> in them has pairwise distinct
  keys.
\<close>

definition wf_set :: "('e, 't) LWWElementSet \<Rightarrow> bool" where
  "wf_set s = (distinct_keys (add s) \<and> distinct_keys (remove s))"

definition wf_graph :: "('e, 't) LWWElementGraph \<Rightarrow> bool" where
  "wf_graph g =
     (wf_set (vertices g) \<and> distinct_keys (edges g) \<and> list_all (\<lambda>(from, edge). wf_set edge) (edges g))"

text \<open>
  The add-timestamp of the edge \<open>(from, to)\<close>, as \<^verbatim>\<open>ContainsEdge\<close> reads it:
  \<^verbatim>\<open>edges.at(from).AddTimestamp(to)\<close>.
\<close>

definition edge_add_timestamp :: "('e, 't) LWWElementGraph \<Rightarrow> 'e \<Rightarrow> 'e \<Rightarrow> error + 't" where
  "edge_add_timestamp g from to = and_then (at (edges g) from) (\<lambda>es. AddTimestamp es to)"

text \<open>
  The first three conditions of the edge validity predicate, in the words of the
  specification: (1) \<^verbatim>\<open>edges[from]\<close> exists and structurally contains \<open>to\<close>; (2) both
  endpoints pass \<^verbatim>\<open>ContainsVertex\<close>; (3) neither endpoint has a remove-timestamp greater
  than or equal to the edge's add-timestamp.
\<close>

definition structurally_present :: "('e, 't::linorder) LWWElementGraph \<Rightarrow> 'e \<Rightarrow> 'e \<Rightarrow> bool" where
  "structurally_present g from to =
     (case map_of (edges g) from of None \<Rightarrow> False | Some es \<Rightarrow> Contains es to = Inr True)"

definition endpoints_alive :: "('e, 't::linorder) LWWElementGraph \<Rightarrow> 'e \<Rightarrow> 'e \<Rightarrow> bool" where
  "endpoints_alive g from to =
     (ContainsVertex g from = Inr True \<and> ContainsVertex g to = Inr True)"

definition removal_dominates :: "('e, 't::linorder) LWWElementGraph \<Rightarrow> 'e \<Rightarrow> 't \<Rightarrow> bool" where
  "removal_dominates g v edge_added =
     (case map_of (remove (vertices g)) v of None \<Rightarrow> False | Some removed_at \<Rightarrow> edge_added \<le> removed_at)"

definition not_dominated :: "('e, 't::linorder) LWWElementGraph \<Rightarrow> 'e \<Rightarrow> 'e \<Rightarrow> bool" where
  "not_dominated g from to =
     (case edge_add_timestamp g from to of
        Inl x \<Rightarrow> True
      | Inr edge_added \<Rightarrow> \<not> removal_dominates g from edge_added \<and> \<not> removal_dominates g to edge_added)"

text \<open>
  What \<^verbatim>\<open>operator==\<close> observes of a well-formed state: the add and remove maps of a set as
  partial functions, and for each source key the maps of its edge set.
\<close>

definition set_view :: "('e, 't) LWWElementSet \<Rightarrow> ('e \<rightharpoonup> 't) \<times> ('e \<rightharpoonup> 't)" where
  "set_view s = (map_of (add s), map_of (remove s))"

definition join_view ::
  "('e \<rightharpoonup> 't::linorder) \<times> ('e \<rightharpoonup> 't) \<Rightarrow> ('e \<rightharpoonup> 't) \<times> ('e \<rightharpoonup> 't) \<Rightarrow> ('e \<rightharpoonup> 't) \<times> ('e \<rightharpoonup> 't)" where
  "join_view u v = (\<lambda>k. join_opt (fst u k) (fst v k), \<lambda>k. join_opt (snd u k) (snd v k))"

definition edges_view :: "('e, 't) LWWElementGraph \<Rightarrow> 'e \<rightharpoonup> ('e \<rightharpoonup> 't) \<times> ('e \<rightharpoonup> 't)" where
  "edges_view g k = map_option set_view (map_of (edges g) k)"

section \<open>Paths and the state of the search\<close>

text \<open>The keys of a map.\<close>

definition key_set :: "('k, 'v) unordered_map \<Rightarrow> 'k set" where
  "key_set m = fst ` set m"

text \<open>
  A \<open>chain\<close> is a sequence of vertices whose consecutive pairs all pass
  \<^verbatim>\<open>ContainsEdge\<close>; a \<open>route\<close> from \<open>from\<close> to \<open>to\<close> is a non-empty chain that starts at
  \<open>from\<close> and ends at \<open>to\<close>, so the single vertex \<open>[v]\<close> is a route from \<open>v\<close> to itself.
\<close>

fun chain :: "('e, 't::linorder) LWWElementGraph \<Rightarrow> 'e list \<Rightarrow> bool" where
  "chain g [] = True"
| "chain g [v] = True"
| "chain g (u # v # vs) = (ContainsEdge g u v = Inr True \<and> chain g (v # vs))"

definition route :: "('e, 't::linorder) LWWElementGraph \<Rightarrow> 'e \<Rightarrow> 'e \<Rightarrow> 'e list \<Rightarrow> bool" where
  "route g from to p = (p \<noteq> [] \<and> hd p = from \<and> last p = to \<and> chain g p)"

text \<open>
  The graphs on which the search never reaches a missing entry of \<open>edges\<close>: every vertex
  that a valid edge points to, the destination apart, has an edge set of its own.
\<close>

definition targets_have_entries :: "('e, 't::linorder) LWWElementGraph \<Rightarrow> 'e \<Rightarrow> bool" where
  "targets_have_entries g dst =
     list_all (\<lambda>(from, edge).
        list_all (\<lambda>(to, t). ContainsEdge g from to = Inr True
                     \<longrightarrow> to = dst \<or> map_of (edges g) to \<noteq> None)
          (add edge))
       (edges g)"

text \<open>
  The shape of \<open>previous\<close> during the search: it starts with the source, mapped to itself,
  and every later entry maps a new vertex to an earlier one that has a valid edge to it.
  \<open>lev\<close> counts the edges of the way back to the source. \<open>searching\<close> is the invariant of
  the \<^verbatim>\<open>while\<close> loop, \<open>expanding\<close> the invariant of the inner loop over the neighbours of
  \<open>e\<close>, and \<open>extends\<close> relates the state before and after a run of the inner loop.
\<close>

inductive search_tree ::
  "('e, 't::linorder) LWWElementGraph \<Rightarrow> 'e \<Rightarrow> ('e, 'e) unordered_map \<Rightarrow> ('e \<Rightarrow> nat) \<Rightarrow> bool"
  for g :: "('e, 't) LWWElementGraph" and src :: 'e where
  root: "search_tree g src [(src, src)] (\<lambda>v. 0)"
| child: "search_tree g src prev lev \<Longrightarrow> u \<in> key_set prev \<Longrightarrow> v \<notin> key_set prev \<Longrightarrow>
          ContainsEdge g u v = Inr True \<Longrightarrow>
          search_tree g src (prev @ [(v, u)]) (lev(v := Suc (lev u)))"

definition expanding ::
  "('e, 't::linorder) LWWElementGraph \<Rightarrow> 'e \<Rightarrow> 'e \<Rightarrow> 'e \<Rightarrow> 'e list \<Rightarrow> ('e, 'e) unordered_map \<Rightarrow>
   ('e \<Rightarrow> nat) \<Rightarrow> bool" where
  "expanding g src dst e queue prev lev =
     (search_tree g src prev lev \<and> e \<in> key_set prev
      \<and> set queue \<subseteq> key_set prev \<and> distinct queue \<and> e \<notin> set queue
      \<and> (\<forall>x \<in> set queue. x \<noteq> dst \<longrightarrow> map_of (edges g) x \<noteq> None)
      \<and> sorted (map lev queue)
      \<and> (\<forall>x \<in> set queue. lev e \<le> lev x)
      \<and> (\<forall>v \<in> key_set prev. lev v \<le> Suc (lev e)))"

definition extends ::
  "('e, 'e) unordered_map \<Rightarrow> ('e \<Rightarrow> nat) \<Rightarrow> 'e list \<Rightarrow>
   ('e, 'e) unordered_map \<Rightarrow> ('e \<Rightarrow> nat) \<Rightarrow> 'e list \<Rightarrow> bool" where
  "extends prev lev queue prev' lev' queue' =
     (key_set prev \<subseteq> key_set prev' \<and> (\<forall>v \<in> key_set prev. lev' v = lev v)
      \<and> set queue \<subseteq> set queue' \<and> key_set prev' - key_set prev \<subseteq> set queue')"

definition searching ::
  "('e, 't::linorder) LWWElementGraph \<Rightarrow> 'e \<Rightarrow> 'e \<Rightarrow> 'e list \<Rightarrow> ('e, 'e) unordered_map \<Rightarrow>
   ('e \<Rightarrow> nat) \<Rightarrow> bool" where
  "searching g src dst queue prev lev =
     (search_tree g src prev lev
      \<and> set queue \<subseteq> key_set prev \<and> distinct queue
      \<and> (\<forall>x \<in> set queue. x \<noteq> dst \<longrightarrow> map_of (edges g) x \<noteq> None)
      \<and> sorted (map lev queue)
      \<and> (queue \<noteq> [] \<longrightarrow> (\<forall>v \<in> key_set prev. lev v \<le> Suc (lev (hd queue))))
      \<and> (\<forall>u \<in> key_set prev - set queue.
            u \<noteq> dst \<and> (\<forall>v. ContainsEdge g u v = Inr True
                           \<longrightarrow> v \<in> key_set prev \<and> lev v \<le> Suc (lev u))))"

section \<open>Facts about the set\<close>

lemma at_Inr_iff: "at m k = Inr v \<longleftrightarrow> map_of m k = Some v"
  by (simp add: at_def split: option.splits)

lemma at_Inl_iff: "at m k = Inl x \<longleftrightarrow> map_of m k = None"
  by (cases x) (simp add: at_def split: option.splits)

lemma Contains_eq:
  "Contains s e =
     Inr (case map_of (add s) e of
            None \<Rightarrow> False
          | Some a \<Rightarrow> (case map_of (remove s) e of None \<Rightarrow> True | Some r \<Rightarrow> r < a))"
  by (simp add: Contains_def AddExist_def RemoveExist_def AddTimestamp_def
      RemoveTimestamp_def at_def and_then_def split: option.splits)

lemma add_Add:
  "map_of (add (Add s e t)) k =
     (if k = e then Some (case map_of (add s) e of None \<Rightarrow> t | Some old \<Rightarrow> max old t)
      else map_of (add s) k)"
  by (simp add: Add_def store_def update_conv' split: option.splits)

lemma remove_Add [simp]: "remove (Add s e t) = remove s"
  by (simp add: Add_def split: option.splits)

lemma remove_Remove:
  "map_of (remove (Remove s e t)) k =
     (if k = e then Some (case map_of (remove s) e of None \<Rightarrow> t | Some old \<Rightarrow> max old t)
      else map_of (remove s) k)"
  by (simp add: Remove_def store_def update_conv' split: option.splits)

lemma add_Remove [simp]: "add (Remove s e t) = add s"
  by (simp add: Remove_def split: option.splits)

text \<open>
  C2. \<^verbatim>\<open>Contains(e)\<close> is false when \<open>e\<close> has no add-timestamp, true when it has an
  add-timestamp and no remove-timestamp, and otherwise true exactly when the add-timestamp
  is strictly greater than the remove-timestamp, so that equal timestamps make the element
  absent. \<^verbatim>\<open>Add(e, t)\<close> followed by \<^verbatim>\<open>Remove(e, t)\<close> leaves \<open>e\<close> absent on the empty set
  and on every set that holds no add-timestamp of \<open>e\<close> later than \<open>t\<close>. On an arbitrary
  set it does not: \<^verbatim>\<open>Add\<close> keeps the maximum, so \<open>e\<close> stays present exactly when the set
  already holds an add-timestamp of \<open>e\<close> that is later than \<open>t\<close> and later than the stored
  remove-timestamp of \<open>e\<close>, if there is one.
\<close>

theorem Contains_remove_wins:
  fixes s :: "('e, 't::linorder) LWWElementSet"
  shows "(\<not> AddExist s e \<longrightarrow> Contains s e = Inr False)
       \<and> (AddExist s e \<and> \<not> RemoveExist s e \<longrightarrow> Contains s e = Inr True)
       \<and> (\<forall>a r. AddTimestamp s e = Inr a \<and> RemoveTimestamp s e = Inr r
             \<longrightarrow> Contains s e = Inr (a > r))
       \<and> (\<forall>a. AddTimestamp s e = Inr a \<and> RemoveTimestamp s e = Inr a
             \<longrightarrow> Contains s e = Inr False)
       \<and> Contains (Remove (Add (empty_set :: ('e, 't) LWWElementSet) e t) e t) e = Inr False
       \<and> ((\<forall>a. AddTimestamp s e = Inr a \<longrightarrow> a \<le> t)
             \<longrightarrow> Contains (Remove (Add s e t) e t) e = Inr False)
       \<and> Contains (Remove (Add s e t) e t) e
           = Inr (case map_of (add s) e of
                    None \<Rightarrow> False
                  | Some a \<Rightarrow>
                      t < a \<and> (case map_of (remove s) e of None \<Rightarrow> True | Some r \<Rightarrow> r < a))"
proof -
  have exact: "Contains (Remove (Add s e t) e t) e
      = Inr (case map_of (add s) e of
               None \<Rightarrow> False
             | Some a \<Rightarrow>
                 t < a \<and> (case map_of (remove s) e of None \<Rightarrow> True | Some r \<Rightarrow> r < a))"
    by (cases "map_of (add s) e"; cases "map_of (remove s) e")
      (auto simp add: Contains_eq add_Add remove_Remove max_def)
  have tie: "Contains (Remove (Add s' e t) e t) e = Inr False"
    if "\<forall>a. map_of (add s') e = Some a \<longrightarrow> a \<le> t" for s' :: "('e, 't) LWWElementSet"
    using that
    by (auto simp add: Contains_eq add_Add remove_Remove max_def not_less
        split: option.splits)
  have "Contains (Remove (Add (empty_set :: ('e, 't) LWWElementSet) e t) e t) e = Inr False"
    by (rule tie) (simp add: empty_set_def)
  moreover have "(\<forall>a. AddTimestamp s e = Inr a \<longrightarrow> a \<le> t)
      \<longrightarrow> Contains (Remove (Add s e t) e t) e = Inr False"
    by (auto intro!: tie simp add: AddTimestamp_def at_Inr_iff)
  moreover have "\<not> AddExist s e \<longrightarrow> Contains s e = Inr False"
    by (simp add: Contains_def)
  moreover have "AddExist s e \<and> \<not> RemoveExist s e \<longrightarrow> Contains s e = Inr True"
    by (simp add: Contains_def)
  moreover have "\<forall>a r. AddTimestamp s e = Inr a \<and> RemoveTimestamp s e = Inr r
      \<longrightarrow> Contains s e = Inr (a > r)"
    by (auto simp add: Contains_eq AddTimestamp_def RemoveTimestamp_def at_Inr_iff)
  moreover have "\<forall>a. AddTimestamp s e = Inr a \<and> RemoveTimestamp s e = Inr a
      \<longrightarrow> Contains s e = Inr False"
    by (auto simp add: Contains_eq AddTimestamp_def RemoveTimestamp_def at_Inr_iff)
  ultimately show ?thesis using exact by blast
qed

theorem Contains_remove_wins_witness:
  "AddExist \<lparr>add = [(7::int, 5::int)], remove = [(7, 5)]\<rparr> 7
   \<and> AddTimestamp \<lparr>add = [(7::int, 5::int)], remove = [(7, 5)]\<rparr> 7 = Inr 5
   \<and> RemoveTimestamp \<lparr>add = [(7::int, 5::int)], remove = [(7, 5)]\<rparr> 7 = Inr 5
   \<and> Contains \<lparr>add = [(7::int, 5::int)], remove = [(7, 5)]\<rparr> 7 = Inr False
   \<and> \<not> AddExist \<lparr>add = [(7::int, 5::int)], remove = []\<rparr> 8
   \<and> Contains \<lparr>add = [(7::int, 5::int)], remove = []\<rparr> 8 = Inr False
   \<and> \<not> RemoveExist \<lparr>add = [(7::int, 5::int)], remove = []\<rparr> 7
   \<and> Contains \<lparr>add = [(7::int, 5::int)], remove = []\<rparr> 7 = Inr True
   \<and> Contains (Remove (Add \<lparr>add = [(7::int, 3::int)], remove = []\<rparr> 7 5) 7 5) 7 = Inr False
   \<and> Contains (Remove (Add \<lparr>add = [(7::int, 9::int)], remove = [(7, 9)]\<rparr> 7 5) 7 5) 7 = Inr False"
  using Contains_remove_wins [of "\<lparr>add = [(7::int, 5::int)], remove = [(7, 5)]\<rparr>" 7 5]
    Contains_remove_wins [of "\<lparr>add = [(7::int, 5::int)], remove = []\<rparr>" 8 0]
    Contains_remove_wins [of "\<lparr>add = [(7::int, 5::int)], remove = []\<rparr>" 7 0]
    Contains_remove_wins [of "\<lparr>add = [(7::int, 3::int)], remove = []\<rparr>" 7 5]
    Contains_remove_wins [of "\<lparr>add = [(7::int, 9::int)], remove = [(7, 9)]\<rparr>" 7 5]
  by (simp add: AddExist_def RemoveExist_def AddTimestamp_def RemoveTimestamp_def at_def)

text \<open>
  The set that already holds the add-timestamp \<open>9\<close> of element \<open>7\<close>: after \<^verbatim>\<open>Add(7, 5)\<close>
  and \<^verbatim>\<open>Remove(7, 5)\<close> the add map still holds \<open>9\<close>, the remove map holds \<open>5\<close>, and
  \<^verbatim>\<open>Contains(7)\<close> is true.
\<close>

theorem Contains_after_later_add_counterexample:
  "Contains (Remove (Add \<lparr>add = [(7::int, 9::int)], remove = []\<rparr> 7 5) 7 5) 7 = Inr True
   \<and> Contains (Remove (Add \<lparr>add = [(7::int, 9::int)], remove = []\<rparr> 7 5) 7 5) 7 \<noteq> Inr False"
  by code_simp

lemma join_all_append: "join_all acc (xs @ ys) = join_all (join_all acc xs) ys"
  by (induction xs arbitrary: acc) simp_all

lemma join_all_Some: "join_all (Some a) ts = Some (Max (insert a (set ts)))"
proof (induction ts arbitrary: a)
  case Nil
  show ?case by simp
next
  case (Cons t ts)
  have "Max (insert (max a t) (set ts)) = Max (insert a (insert t (set ts)))"
    by (cases "set ts = {}") (simp_all add: max.assoc)
  then show ?case using Cons by simp
qed

lemma join_all_None: "join_all None ts = (if ts = [] then None else Some (Max (set ts)))"
  by (cases ts) (simp_all add: join_all_Some)

lemma fold_Add_add:
  "map_of (add (fold (\<lambda>(e, t) acc. Add acc e t) xs s)) k = join_all (map_of (add s) k) (stamps_of k xs)"
  by (induction xs arbitrary: s) (auto simp add: stamps_of_def add_Add split: option.splits)

lemma fold_Add_remove [simp]:
  "remove (fold (\<lambda>(e, t) acc. Add acc e t) xs s) = remove s"
  by (induction xs arbitrary: s) auto

lemma fold_Remove_remove:
  "map_of (remove (fold (\<lambda>(e, t) acc. Remove acc e t) xs s)) k = join_all (map_of (remove s) k) (stamps_of k xs)"
  by (induction xs arbitrary: s) (auto simp add: stamps_of_def remove_Remove split: option.splits)

lemma fold_Remove_add [simp]:
  "add (fold (\<lambda>(e, t) acc. Remove acc e t) xs s) = add s"
  by (induction xs arbitrary: s) auto

lemma add_Merge: "map_of (add (Merge s other)) k = join_all (map_of (add s) k) (stamps_of k (add other))"
  by (simp add: Merge_def fold_Add_add)

lemma remove_Merge: "map_of (remove (Merge s other)) k = join_all (map_of (remove s) k) (stamps_of k (remove other))"
  by (simp add: Merge_def fold_Remove_remove)

lemma add_apply_op: "map_of (add (apply_op s op)) k = join_all (map_of (add s) k) (adds_of k op)"
  by (cases op) (auto simp add: add_Add add_Merge split: option.splits)

lemma remove_apply_op: "map_of (remove (apply_op s op)) k = join_all (map_of (remove s) k) (removes_of k op)"
  by (cases op) (auto simp add: remove_Remove remove_Merge split: option.splits)

lemma add_fold_apply_op:
  "map_of (add (fold (\<lambda>op s. apply_op s op) ops s)) k = join_all (map_of (add s) k) (added ops k)"
  by (induction ops arbitrary: s) (simp_all add: added_def add_apply_op join_all_append)

lemma remove_fold_apply_op:
  "map_of (remove (fold (\<lambda>op s. apply_op s op) ops s)) k = join_all (map_of (remove s) k) (removed ops k)"
  by (induction ops arbitrary: s) (simp_all add: removed_def remove_apply_op join_all_append)

lemma add_run_ops: "map_of (add (run_ops ops)) k = (if added ops k = [] then None else Some (Max (set (added ops k))))"
  by (simp add: run_ops_def add_fold_apply_op empty_set_def join_all_None)

lemma remove_run_ops: "map_of (remove (run_ops ops)) k = (if removed ops k = [] then None else Some (Max (set (removed ops k))))"
  by (simp add: run_ops_def remove_fold_apply_op empty_set_def join_all_None)

lemma stamps_of_distinct:
  "distinct (map fst m) \<Longrightarrow> stamps_of k m = (case map_of m k of None \<Rightarrow> [] | Some t \<Rightarrow> [t])"
  by (induction m) (auto simp add: stamps_of_def split: option.splits dest: map_of_SomeD intro: rev_image_eqI)

lemma join_all_distinct:
  "distinct (map fst m) \<Longrightarrow> join_all a (stamps_of k m) = join_opt a (map_of m k)"
  by (simp add: stamps_of_distinct join_opt_def split: option.splits)

text \<open>
  C7. After any sequence of \<^verbatim>\<open>Add\<close>, \<^verbatim>\<open>Remove\<close> and \<^verbatim>\<open>Merge\<close> operations on a
  set created empty, the add-timestamp stored for an element is the maximum of all
  add-timestamps the sequence applied to it, locally or through a merged set, and the
  remove-timestamp stored is the maximum of all remove-timestamps applied. \<^verbatim>\<open>Merge\<close>
  computes the pointwise join of the two add maps and of the two remove maps.
\<close>

theorem timestamp_maximum:
  fixes ops :: "('e, 't::linorder) set_op list" and s other :: "('e, 't) LWWElementSet"
  shows "(\<forall>t. map_of (add (run_ops ops)) e = Some t
             \<longrightarrow> added ops e \<noteq> [] \<and> t = Max (set (added ops e)))
       \<and> (\<forall>t. map_of (remove (run_ops ops)) e = Some t
             \<longrightarrow> removed ops e \<noteq> [] \<and> t = Max (set (removed ops e)))
       \<and> (added ops e \<noteq> [] \<longrightarrow> AddExist (run_ops ops) e)
       \<and> (removed ops e \<noteq> [] \<longrightarrow> RemoveExist (run_ops ops) e)
       \<and> (wf_set other \<longrightarrow>
            map_of (add (Merge s other)) e = join_opt (map_of (add s) e) (map_of (add other) e)
          \<and> map_of (remove (Merge s other)) e
              = join_opt (map_of (remove s) e) (map_of (remove other) e))"
proof -
  have "wf_set other \<longrightarrow>
      map_of (add (Merge s other)) e = join_opt (map_of (add s) e) (map_of (add other) e)
    \<and> map_of (remove (Merge s other)) e
        = join_opt (map_of (remove s) e) (map_of (remove other) e)"
    by (simp add: wf_set_def distinct_keys_def add_Merge remove_Merge join_all_distinct)
  then show ?thesis
    by (simp add: add_run_ops remove_run_ops AddExist_def RemoveExist_def)
qed

theorem timestamp_maximum_witness:
  "map_of (add (run_ops [OpAdd (1::int) (5::int), OpRemove 1 4, OpAdd 1 3,
                         OpMerge \<lparr>add = [(2, 6), (1, 9)], remove = [(1, 2)]\<rparr>, OpAdd 1 7])) 1 = Some 9
   \<and> 9 = Max (set (added [OpAdd (1::int) (5::int), OpRemove 1 4, OpAdd 1 3,
                         OpMerge \<lparr>add = [(2, 6), (1, 9)], remove = [(1, 2)]\<rparr>, OpAdd 1 7] 1))
   \<and> map_of (remove (run_ops [OpAdd (1::int) (5::int), OpRemove 1 4, OpAdd 1 3,
                         OpMerge \<lparr>add = [(2, 6), (1, 9)], remove = [(1, 2)]\<rparr>, OpAdd 1 7])) 1 = Some 4
   \<and> 4 = Max (set (removed [OpAdd (1::int) (5::int), OpRemove 1 4, OpAdd 1 3,
                         OpMerge \<lparr>add = [(2, 6), (1, 9)], remove = [(1, 2)]\<rparr>, OpAdd 1 7] 1))
   \<and> wf_set \<lparr>add = [(2::int, 6::int), (1, 9)], remove = [(1, 2)]\<rparr>
   \<and> map_of (add (Merge \<lparr>add = [(1::int, 5::int)], remove = []\<rparr>
                         \<lparr>add = [(2, 6), (1, 9)], remove = [(1, 2)]\<rparr>)) 1
       = join_opt (Some 5) (Some 9)"
proof -
  let ?ops = "[OpAdd (1::int) (5::int), OpRemove 1 4, OpAdd 1 3,
               OpMerge \<lparr>add = [(2, 6), (1, 9)], remove = [(1, 2)]\<rparr>, OpAdd 1 7]"
  let ?other = "\<lparr>add = [(2::int, 6::int), (1, 9)], remove = [(1, 2)]\<rparr>"
  let ?s = "\<lparr>add = [(1::int, 5::int)], remove = []\<rparr>"
  have a: "map_of (add (run_ops ?ops)) 1 = Some 9"
    by code_simp
  have r: "map_of (remove (run_ops ?ops)) 1 = Some 4"
    by code_simp
  have w: "wf_set ?other"
    by (simp add: wf_set_def distinct_keys_def)
  show ?thesis
    using timestamp_maximum [of ?ops 1 ?other ?s] a r w by simp
qed

text \<open>
  C8. \<^verbatim>\<open>AddTimestamp(e)\<close> throws exactly when \<open>e\<close> has no entry in the add map, which
  for a set built from the empty set is exactly when no \<^verbatim>\<open>Add\<close> and no merged add map
  ever mentioned \<open>e\<close>; when \<^verbatim>\<open>AddExist(e)\<close> holds it returns the stored timestamp. The
  same holds for \<^verbatim>\<open>RemoveTimestamp\<close> and \<^verbatim>\<open>RemoveExist\<close>. No other operation of the set
  can throw: \<^verbatim>\<open>Contains\<close>, the only one that calls the two accessors, always returns.
\<close>

theorem timestamp_accessors_partial:
  fixes s :: "('e, 't::linorder) LWWElementSet" and ops :: "('e, 't) set_op list"
  shows "(AddTimestamp s e = Inl out_of_range \<longleftrightarrow> \<not> AddExist s e)
       \<and> (RemoveTimestamp s e = Inl out_of_range \<longleftrightarrow> \<not> RemoveExist s e)
       \<and> (AddExist s e \<longrightarrow> (\<exists>t. map_of (add s) e = Some t \<and> AddTimestamp s e = Inr t))
       \<and> (RemoveExist s e \<longrightarrow> (\<exists>t. map_of (remove s) e = Some t \<and> RemoveTimestamp s e = Inr t))
       \<and> (AddTimestamp (run_ops ops) e = Inl out_of_range \<longleftrightarrow> added ops e = [])
       \<and> (RemoveTimestamp (run_ops ops) e = Inl out_of_range \<longleftrightarrow> removed ops e = [])
       \<and> (\<exists>b. Contains s e = Inr b)"
  by (auto simp add: AddTimestamp_def RemoveTimestamp_def AddExist_def RemoveExist_def
      at_Inl_iff at_Inr_iff add_run_ops remove_run_ops Contains_eq
      simp del: not_None_eq split: if_splits)

theorem timestamp_accessors_partial_witness:
  "AddExist \<lparr>add = [(3::int, 8::int)], remove = []\<rparr> 3
   \<and> AddTimestamp \<lparr>add = [(3::int, 8::int)], remove = []\<rparr> 3 = Inr 8
   \<and> \<not> RemoveExist \<lparr>add = [(3::int, 8::int)], remove = []\<rparr> 3
   \<and> RemoveTimestamp \<lparr>add = [(3::int, 8::int)], remove = []\<rparr> 3 = Inl out_of_range
   \<and> RemoveExist \<lparr>add = [(3::int, 8::int)], remove = [(3, 2)]\<rparr> 3
   \<and> RemoveTimestamp \<lparr>add = [(3::int, 8::int)], remove = [(3, 2)]\<rparr> 3 = Inr 2
   \<and> added [OpRemove (3::int) (1::int)] 3 = []
   \<and> AddTimestamp (run_ops [OpRemove (3::int) (1::int)]) 3 = Inl out_of_range"
  using timestamp_accessors_partial [of "\<lparr>add = [(3::int, 8::int)], remove = []\<rparr>" 3 "[OpRemove 3 1]"]
    timestamp_accessors_partial [of "\<lparr>add = [(3::int, 8::int)], remove = [(3, 2)]\<rparr>" 3 "[]"]
  by (simp add: AddExist_def RemoveExist_def added_def)

section \<open>Facts about the graph\<close>

lemma and_then_simps [simp]:
  "and_then (Inr a) f = f a" "and_then (Inl x) f = Inl x"
  by (simp_all add: and_then_def)

lemma or_else_Inr [simp]: "or_else (Inr b) c = (if b then Inr True else c)"
  by (simp add: or_else_def)

lemma and_also_Inr [simp]: "and_also (Inr b) c = (if b then c else Inr False)"
  by (simp add: and_also_def)

lemma negate_Inr [simp]: "negate (Inr b) = Inr (\<not> b)"
  by (simp add: negate_def)

lemma removal_check:
  "and_also (Inr (RemoveExist (vertices g) v))
     (and_then (RemoveTimestamp (vertices g) v) (\<lambda>r. Inr (ea \<le> r)))
   = Inr (removal_dominates g v ea)"
  by (cases "map_of (remove (vertices g)) v")
    (simp_all add: RemoveExist_def RemoveTimestamp_def at_def removal_dominates_def)

lemma ContainsEdge_eq:
  "ContainsEdge g from to =
     Inr (case map_of (edges g) from of
            None \<Rightarrow> False
          | Some es \<Rightarrow>
              (case map_of (add es) to of
                 None \<Rightarrow> False
               | Some ea \<Rightarrow>
                   Contains es to = Inr True
                 \<and> ContainsVertex g from = Inr True \<and> ContainsVertex g to = Inr True
                 \<and> \<not> removal_dominates g from ea \<and> \<not> removal_dominates g to ea
                 \<and> (case map_of (add (vertices g)) from of None \<Rightarrow> False | Some a \<Rightarrow> a \<le> ea)
                 \<and> (case map_of (add (vertices g)) to of None \<Rightarrow> False | Some a \<Rightarrow> a \<le> ea)))"
proof (cases "map_of (edges g) from")
  case None
  then show ?thesis by (simp add: ContainsEdge_def)
next
  case (Some es)
  show ?thesis
  proof (cases "map_of (add es) to")
    case None
    then show ?thesis using Some
      by (simp add: ContainsEdge_def at_def Contains_eq)
  next
    case ea: (Some ea)
    show ?thesis
    proof (cases "Contains es to = Inr True \<and> ContainsVertex g from = Inr True
                    \<and> ContainsVertex g to = Inr True")
      case False
      then show ?thesis using Some ea
        by (auto simp add: ContainsEdge_def at_def ContainsVertex_def Contains_eq
            split: option.splits)
    next
      case True
      then obtain af at' where v: "map_of (add (vertices g)) from = Some af"
          "map_of (add (vertices g)) to = Some at'"
        by (auto simp add: ContainsVertex_def Contains_eq split: option.splits)
      have "ContainsEdge g from to =
              (if removal_dominates g from ea \<or> removal_dominates g to ea then Inr False
               else if ea < af \<or> ea < at' then Inr False else Inr True)"
        using Some ea True v
        by (simp add: ContainsEdge_def removal_check at_def AddTimestamp_def
            del: and_also_Inr)
      then have "ContainsEdge g from to =
              Inr (\<not> removal_dominates g from ea \<and> \<not> removal_dominates g to ea
                   \<and> af \<le> ea \<and> at' \<le> ea)"
        by (auto simp add: not_less)
      then show ?thesis using Some ea True v
        by simp
    qed
  qed
qed

text \<open>
  C9. \<^verbatim>\<open>ContainsEdge(from, to)\<close> returns a truth value on every graph and every pair of
  keys: none of its calls of \<^verbatim>\<open>at\<close>, \<^verbatim>\<open>AddTimestamp\<close> and \<^verbatim>\<open>RemoveTimestamp\<close> throws.
\<close>

theorem ContainsEdge_total:
  "(\<exists>b. ContainsEdge g from to = Inr b) \<and> ContainsEdge g from to \<noteq> Inl out_of_range"
  by (simp add: ContainsEdge_eq)

text \<open>
  C4. In a graph where the edge \<open>(from, to)\<close> is structurally present, both endpoints are
  alive and no endpoint's removal dominates the edge, \<^verbatim>\<open>ContainsEdge(from, to)\<close> is false
  when the edge's add-timestamp is strictly less than the add-timestamp of an endpoint, and
  true when it is greater than or equal to both.
\<close>

theorem edge_vertex_causality:
  assumes "structurally_present g from to"
    and "endpoints_alive g from to"
    and "not_dominated g from to"
  shows "\<exists>edge_added from_added to_added.
           edge_add_timestamp g from to = Inr edge_added
         \<and> AddTimestamp (vertices g) from = Inr from_added
         \<and> AddTimestamp (vertices g) to = Inr to_added
         \<and> (edge_added < from_added \<or> edge_added < to_added
               \<longrightarrow> ContainsEdge g from to = Inr False)
         \<and> (from_added \<le> edge_added \<and> to_added \<le> edge_added
               \<longrightarrow> ContainsEdge g from to = Inr True)"
proof -
  from assms(1) obtain es where es: "map_of (edges g) from = Some es"
      and c: "Contains es to = Inr True"
    by (auto simp add: structurally_present_def split: option.splits)
  from c obtain ea where ea: "map_of (add es) to = Some ea"
    by (auto simp add: Contains_eq split: option.splits)
  from assms(2) obtain af at' where v: "map_of (add (vertices g)) from = Some af"
      "map_of (add (vertices g)) to = Some at'"
    by (auto simp add: endpoints_alive_def ContainsVertex_def Contains_eq split: option.splits)
  have e: "edge_add_timestamp g from to = Inr ea"
    using es ea by (simp add: edge_add_timestamp_def at_def AddTimestamp_def)
  have "ContainsEdge g from to = Inr (af \<le> ea \<and> at' \<le> ea)"
    using es ea c v assms(2,3) e
    by (simp add: ContainsEdge_eq endpoints_alive_def not_dominated_def)
  then show ?thesis
    using e v by (auto simp add: AddTimestamp_def at_def)
qed

theorem edge_vertex_causality_witness:
  "structurally_present (AddVertex (AddVertex (AddEdge (empty_graph :: (int, int) LWWElementGraph) 0 1 0) 0 0) 1 0) 0 1
   \<and> endpoints_alive (AddVertex (AddVertex (AddEdge (empty_graph :: (int, int) LWWElementGraph) 0 1 0) 0 0) 1 0) 0 1
   \<and> not_dominated (AddVertex (AddVertex (AddEdge (empty_graph :: (int, int) LWWElementGraph) 0 1 0) 0 0) 1 0) 0 1
   \<and> ContainsEdge (AddVertex (AddVertex (AddEdge (empty_graph :: (int, int) LWWElementGraph) 0 1 0) 0 0) 1 0) 0 1 = Inr True
   \<and> structurally_present (AddEdge (AddVertex (AddVertex (empty_graph :: (int, int) LWWElementGraph) 0 0) 1 0) 0 1 (- 1)) 0 1
   \<and> endpoints_alive (AddEdge (AddVertex (AddVertex (empty_graph :: (int, int) LWWElementGraph) 0 0) 1 0) 0 1 (- 1)) 0 1
   \<and> not_dominated (AddEdge (AddVertex (AddVertex (empty_graph :: (int, int) LWWElementGraph) 0 0) 1 0) 0 1 (- 1)) 0 1
   \<and> ContainsEdge (AddEdge (AddVertex (AddVertex (empty_graph :: (int, int) LWWElementGraph) 0 0) 1 0) 0 1 (- 1)) 0 1 = Inr False"
proof -
  let ?g = "AddVertex (AddVertex (AddEdge (empty_graph :: (int, int) LWWElementGraph) 0 1 0) 0 0) 1 0"
  let ?h = "AddEdge (AddVertex (AddVertex (empty_graph :: (int, int) LWWElementGraph) 0 0) 1 0) 0 1 (- 1)"
  have g: "structurally_present ?g 0 1" "endpoints_alive ?g 0 1" "not_dominated ?g 0 1"
    by code_simp+
  have h: "structurally_present ?h 0 1" "endpoints_alive ?h 0 1" "not_dominated ?h 0 1"
    by code_simp+
  have gt: "edge_add_timestamp ?g 0 1 = Inr 0" "AddTimestamp (vertices ?g) 0 = Inr 0"
      "AddTimestamp (vertices ?g) 1 = Inr 0"
    by code_simp+
  have ht: "edge_add_timestamp ?h 0 1 = Inr (- 1)" "AddTimestamp (vertices ?h) 0 = Inr 0"
      "AddTimestamp (vertices ?h) 1 = Inr 0"
    by code_simp+
  show ?thesis
    using edge_vertex_causality [OF g] edge_vertex_causality [OF h] g h gt ht by auto
qed

text \<open>
  C5. When an endpoint of the edge \<open>(from, to)\<close> has a remove-timestamp greater than or
  equal to the edge's add-timestamp, \<^verbatim>\<open>ContainsEdge(from, to)\<close> is false, whether or not the
  edge's own set still contains \<open>to\<close>.
\<close>

theorem vertex_removal_dominates:
  assumes "edge_add_timestamp g from to = Inr edge_added"
    and "RemoveTimestamp (vertices g) from = Inr removed_at \<and> edge_added \<le> removed_at
       \<or> RemoveTimestamp (vertices g) to = Inr removed_at \<and> edge_added \<le> removed_at"
  shows "ContainsEdge g from to = Inr False"
proof -
  from assms(1) obtain es where es: "map_of (edges g) from = Some es"
      and ea: "map_of (add es) to = Some edge_added"
    by (auto simp add: edge_add_timestamp_def at_def AddTimestamp_def split: option.splits)
  from assms(2) have "removal_dominates g from edge_added \<or> removal_dominates g to edge_added"
    by (auto simp add: removal_dominates_def RemoveTimestamp_def at_Inr_iff)
  then show ?thesis
    using es ea by (auto simp add: ContainsEdge_eq)
qed

theorem vertex_removal_dominates_witness:
  "edge_add_timestamp (RemoveVertex (AddEdge (AddVertex (AddVertex (empty_graph :: (int, int) LWWElementGraph) 0 0) 1 0) 0 1 1) 1 1) 0 1 = Inr 1
   \<and> RemoveTimestamp (vertices (RemoveVertex (AddEdge (AddVertex (AddVertex (empty_graph :: (int, int) LWWElementGraph) 0 0) 1 0) 0 1 1) 1 1)) 1 = Inr 1
   \<and> structurally_present (RemoveVertex (AddEdge (AddVertex (AddVertex (empty_graph :: (int, int) LWWElementGraph) 0 0) 1 0) 0 1 1) 1 1) 0 1
   \<and> ContainsEdge (RemoveVertex (AddEdge (AddVertex (AddVertex (empty_graph :: (int, int) LWWElementGraph) 0 0) 1 0) 0 1 1) 1 1) 0 1 = Inr False
   \<and> ContainsVertex (RemoveVertex (AddEdge (AddVertex (AddVertex (empty_graph :: (int, int) LWWElementGraph) 0 0) 1 0) 0 1 1) 1 1) 1 = Inr False
   \<and> ContainsVertex (RemoveVertex (AddEdge (AddVertex (AddVertex (empty_graph :: (int, int) LWWElementGraph) 0 0) 1 0) 0 1 1) 1 1) 0 = Inr True
   \<and> RemoveTimestamp (vertices (AddEdge (RemoveVertex (AddVertex (AddVertex (empty_graph :: (int, int) LWWElementGraph) 0 0) 1 5) 1 3) 0 1 2)) 1 = Inr 3
   \<and> endpoints_alive (AddEdge (RemoveVertex (AddVertex (AddVertex (empty_graph :: (int, int) LWWElementGraph) 0 0) 1 5) 1 3) 0 1 2) 0 1
   \<and> ContainsEdge (AddEdge (RemoveVertex (AddVertex (AddVertex (empty_graph :: (int, int) LWWElementGraph) 0 0) 1 5) 1 3) 0 1 2) 0 1 = Inr False"
proof -
  let ?g = "RemoveVertex (AddEdge (AddVertex (AddVertex (empty_graph :: (int, int) LWWElementGraph) 0 0) 1 0) 0 1 1) 1 1"
  let ?h = "AddEdge (RemoveVertex (AddVertex (AddVertex (empty_graph :: (int, int) LWWElementGraph) 0 0) 1 5) 1 3) 0 1 2"
  have g: "edge_add_timestamp ?g 0 1 = Inr 1" "RemoveTimestamp (vertices ?g) 1 = Inr 1"
      "structurally_present ?g 0 1" "ContainsVertex ?g 1 = Inr False" "ContainsVertex ?g 0 = Inr True"
    by code_simp+
  have h: "edge_add_timestamp ?h 0 1 = Inr 2" "RemoveTimestamp (vertices ?h) 1 = Inr 3"
      "endpoints_alive ?h 0 1"
    by code_simp+
  show ?thesis
    using vertex_removal_dominates [of ?g 0 1 1 1] vertex_removal_dominates [of ?h 0 1 2 3] g h
    by simp
qed

lemma map_of_store: "map_of (store m k v) k' = (if k' = k then Some v else map_of m k')"
  by (simp add: store_def update_conv')

text \<open>
  C10. \<^verbatim>\<open>AddEdge(from, to, t)\<close> and \<^verbatim>\<open>RemoveEdge(from, to, t)\<close> leave the vertex set and
  the edge sets of all other source keys as they are. \<^verbatim>\<open>AddEdge\<close> checks nothing about its
  endpoints: on every graph it records the timestamp in the edge set of \<open>from\<close>, also when
  neither endpoint was ever added as a vertex.
\<close>

theorem edge_operations_frame:
  fixes g :: "('e, 't::linorder) LWWElementGraph"
  shows "vertices (AddEdge g from to t) = vertices g
       \<and> vertices (RemoveEdge g from to t) = vertices g
       \<and> (\<forall>k. k \<noteq> from \<longrightarrow> map_of (edges (AddEdge g from to t)) k = map_of (edges g) k)
       \<and> (\<forall>k. k \<noteq> from \<longrightarrow> map_of (edges (RemoveEdge g from to t)) k = map_of (edges g) k)
       \<and> map_of (edges (AddEdge g from to t)) from = Some (Add (edge_set g from) to t)
       \<and> map_of (edges (RemoveEdge g from to t)) from = Some (Remove (edge_set g from) to t)
       \<and> (\<exists>recorded. edge_add_timestamp (AddEdge g from to t) from to = Inr recorded \<and> t \<le> recorded)
       \<and> (\<not> AddExist (vertices g) from \<and> \<not> AddExist (vertices g) to
            \<and> map_of (edges g) from = None
            \<longrightarrow> edge_add_timestamp (AddEdge g from to t) from to = Inr t)"
  by (auto simp add: AddEdge_def RemoveEdge_def map_of_store edge_add_timestamp_def at_def
      AddTimestamp_def add_Add edge_set_def empty_set_def split: option.splits)

theorem edge_operations_frame_witness:
  "map_of (edges (AddEdge \<lparr>vertices = empty_set, edges = [(7::int, \<lparr>add = [(8::int, 1::int)], remove = []\<rparr>)]\<rparr> 0 1 5)) 7
     = Some \<lparr>add = [(8, 1)], remove = []\<rparr>
   \<and> map_of (edges (RemoveEdge \<lparr>vertices = empty_set, edges = [(7::int, \<lparr>add = [(8::int, 1::int)], remove = []\<rparr>)]\<rparr> 0 1 5)) 7
     = Some \<lparr>add = [(8, 1)], remove = []\<rparr>
   \<and> \<not> AddExist (vertices (empty_graph :: (int, int) LWWElementGraph)) 0
   \<and> \<not> AddExist (vertices (empty_graph :: (int, int) LWWElementGraph)) 1
   \<and> edge_add_timestamp (AddEdge (empty_graph :: (int, int) LWWElementGraph) 0 1 5) 0 1 = Inr 5
   \<and> vertices (AddEdge (empty_graph :: (int, int) LWWElementGraph) 0 1 5) = empty_set"
  using edge_operations_frame [of "\<lparr>vertices = empty_set, edges = [(7::int, \<lparr>add = [(8::int, 1::int)], remove = []\<rparr>)]\<rparr>" 0 1 5]
    edge_operations_frame [of "empty_graph :: (int, int) LWWElementGraph" 0 1 5]
  by (simp add: empty_graph_def empty_set_def AddExist_def)

text \<open>
  C3. A graph with the two vertices \<open>0\<close> and \<open>1\<close> and no edge at all: \<^verbatim>\<open>AnyPath(0, 1)\<close>
  expands vertex \<open>0\<close>, which has no entry in \<open>edges\<close>, and \<^verbatim>\<open>edges.at(0)\<close> throws.
\<close>

theorem AnyPath_throws_without_edge_entry:
  "ContainsVertex (AddVertex (AddVertex (empty_graph :: (int, int) LWWElementGraph) 0 0) 1 0) 0 = Inr True
   \<and> ContainsVertex (AddVertex (AddVertex (empty_graph :: (int, int) LWWElementGraph) 0 0) 1 0) 1 = Inr True
   \<and> map_of (edges (AddVertex (AddVertex (empty_graph :: (int, int) LWWElementGraph) 0 0) 1 0)) 0 = None
   \<and> AnyPath (AddVertex (AddVertex (empty_graph :: (int, int) LWWElementGraph) 0 0) 1 0) 0 1
       = Some (Inl out_of_range)"
  by code_simp

text \<open>
  C6. Vertices \<open>0\<close>, \<open>1\<close>, \<open>2\<close> and the single edge \<open>0 \<rightarrow> 1\<close>: no path leads from \<open>0\<close>
  to \<open>2\<close>, and \<^verbatim>\<open>AnyPath(0, 2)\<close> throws when it expands vertex \<open>1\<close> instead of returning
  the empty sequence. Vertices \<open>0\<close> to \<open>3\<close> and the edges \<open>0 \<rightarrow> 1\<close>, \<open>0 \<rightarrow> 2\<close>,
  \<open>2 \<rightarrow> 3\<close>: the path \<open>0, 2, 3\<close> exists, and \<^verbatim>\<open>AnyPath(0, 3)\<close> throws at vertex \<open>1\<close>, which
  leaves the queue before \<open>3\<close> in either order of the two neighbours of \<open>0\<close>.
\<close>

theorem AnyPath_throws_instead_of_answer:
  "AnyPath (AddEdge (AddVertex (AddVertex (AddVertex (empty_graph :: (int, int) LWWElementGraph) 0 0) 1 0) 2 0) 0 1 1) 0 2
     = Some (Inl out_of_range)
   \<and> ContainsEdge \<lparr>vertices = \<lparr>add = [(0::int, 0::int), (1, 0), (2, 0), (3, 0)], remove = []\<rparr>,
        edges = [(0, \<lparr>add = [(1, 1), (2, 1)], remove = []\<rparr>), (2, \<lparr>add = [(3, 1)], remove = []\<rparr>)]\<rparr> 0 2 = Inr True
   \<and> ContainsEdge \<lparr>vertices = \<lparr>add = [(0::int, 0::int), (1, 0), (2, 0), (3, 0)], remove = []\<rparr>,
        edges = [(0, \<lparr>add = [(1, 1), (2, 1)], remove = []\<rparr>), (2, \<lparr>add = [(3, 1)], remove = []\<rparr>)]\<rparr> 2 3 = Inr True
   \<and> AnyPath \<lparr>vertices = \<lparr>add = [(0::int, 0::int), (1, 0), (2, 0), (3, 0)], remove = []\<rparr>,
        edges = [(0, \<lparr>add = [(1, 1), (2, 1)], remove = []\<rparr>), (2, \<lparr>add = [(3, 1)], remove = []\<rparr>)]\<rparr> 0 3
     = Some (Inl out_of_range)
   \<and> AnyPath \<lparr>vertices = \<lparr>add = [(0::int, 0::int), (1, 0), (2, 0), (3, 0)], remove = []\<rparr>,
        edges = [(0, \<lparr>add = [(2, 1), (1, 1)], remove = []\<rparr>), (2, \<lparr>add = [(3, 1)], remove = []\<rparr>)]\<rparr> 0 3
     = Some (Inl out_of_range)"
  by code_simp

text \<open>
  The parts of the path search that do not reach \<^verbatim>\<open>edges.at\<close>: an absent endpoint gives the
  empty sequence, and the path from an existing vertex to itself is that vertex alone.
\<close>

lemma AnyPath_self:
  "ContainsVertex g v = Inr True \<Longrightarrow> AnyPath g v v = Some (Inr [v])"
  by (simp add: AnyPath_def path_back.simps)

lemma AnyPath_absent_endpoint:
  "ContainsVertex g from = Inr False \<or> ContainsVertex g to = Inr False \<Longrightarrow> AnyPath g from to = Some (Inr [])"
  by (auto simp add: AnyPath_def ContainsVertex_def Contains_eq)

section \<open>Merging graphs\<close>

lemma keys_length: "distinct (map fst m) \<Longrightarrow> card (fst ` set m) = length m"
  using distinct_card [of "map fst m"] by simp

lemma key_iff: "k \<in> fst ` set m \<longleftrightarrow> map_of m k \<noteq> None"
  by (simp add: map_of_eq_None_iff)

lemma umap_eq_iff:
  assumes "distinct (map fst a)" and "distinct (map fst b)"
  shows "umap_eq veq a b \<longleftrightarrow> (\<forall>k. rel_option veq (map_of a k) (map_of b k))"
proof
  assume "umap_eq veq a b"
  then have len: "length a = length b"
    and found: "\<And>k v. (k, v) \<in> set a \<Longrightarrow> \<exists>w. map_of b k = Some w \<and> veq v w"
    by (auto simp add: umap_eq_def list_all_iff split: option.splits)
  have "fst ` set a \<subseteq> fst ` set b"
  proof
    fix k assume "k \<in> fst ` set a"
    then obtain v where "(k, v) \<in> set a" by auto
    with found obtain w where "map_of b k = Some w" by blast
    then show "k \<in> fst ` set b" by (auto dest: map_of_SomeD intro: rev_image_eqI)
  qed
  moreover have "card (fst ` set a) = card (fst ` set b)"
    using assms len by (simp add: keys_length)
  ultimately have keys: "fst ` set a = fst ` set b"
    by (simp add: card_subset_eq)
  show "\<forall>k. rel_option veq (map_of a k) (map_of b k)"
  proof
    fix k
    show "rel_option veq (map_of a k) (map_of b k)"
    proof (cases "map_of a k")
      case None
      then have "k \<notin> fst ` set b" using keys by (simp add: map_of_eq_None_iff)
      then have "map_of b k = None" by (simp add: map_of_eq_None_iff)
      with None show ?thesis by simp
    next
      case (Some v)
      then have "(k, v) \<in> set a" by (rule map_of_SomeD)
      with found obtain w where "map_of b k = Some w" "veq v w" by blast
      with Some show ?thesis by simp
    qed
  qed
next
  assume rel: "\<forall>k. rel_option veq (map_of a k) (map_of b k)"
  have "k \<in> fst ` set a \<longleftrightarrow> k \<in> fst ` set b" for k
    using rel [rule_format, of k]
    by (cases "map_of a k"; cases "map_of b k") (simp_all add: key_iff)
  then have "fst ` set a = fst ` set b" by blast
  then have "length a = length b"
    using assms keys_length [of a] keys_length [of b] by simp
  moreover have "case map_of b k of None \<Rightarrow> False | Some w \<Rightarrow> veq v w" if "(k, v) \<in> set a" for k v
  proof -
    from that assms(1) have "map_of a k = Some v" by simp
    with rel [rule_format, of k] show ?thesis
      by (cases "map_of b k") simp_all
  qed
  ultimately show "umap_eq veq a b"
    by (auto simp add: umap_eq_def list_all_iff)
qed

lemma set_eq_iff:
  "wf_set s \<Longrightarrow> wf_set s' \<Longrightarrow> set_eq s s' \<longleftrightarrow> set_view s = set_view s'"
  by (auto simp add: set_eq_def wf_set_def distinct_keys_def umap_eq_iff option.rel_eq
      set_view_def fun_eq_iff)

lemma list_all_map_of:
  "distinct (map fst m) \<Longrightarrow> list_all P m \<longleftrightarrow> (\<forall>k v. map_of m k = Some v \<longrightarrow> P (k, v))"
  by (auto simp add: list_all_iff dest: map_of_SomeD)

lemma wf_graph_iff:
  "wf_graph g \<longleftrightarrow>
     wf_set (vertices g) \<and> distinct_keys (edges g)
     \<and> (\<forall>k es. map_of (edges g) k = Some es \<longrightarrow> wf_set es)"
  by (auto simp add: wf_graph_def distinct_keys_def list_all_map_of)

lemma graph_eq_iff:
  assumes "wf_graph g" and "wf_graph g'"
  shows "graph_eq g g' \<longleftrightarrow>
           set_view (vertices g) = set_view (vertices g') \<and> edges_view g = edges_view g'"
proof -
  have "rel_option set_eq (map_of (edges g) k) (map_of (edges g') k)
          \<longleftrightarrow> edges_view g k = edges_view g' k" for k
    using assms
    by (cases "map_of (edges g) k"; cases "map_of (edges g') k")
      (auto simp add: wf_graph_iff edges_view_def set_eq_iff)
  then show ?thesis
    using assms
    by (simp add: graph_eq_def wf_graph_iff distinct_keys_def umap_eq_iff set_eq_iff fun_eq_iff)
qed

lemma wf_set_Add: "wf_set s \<Longrightarrow> wf_set (Add s e t)"
  by (simp add: wf_set_def distinct_keys_def Add_def store_def distinct_update split: option.splits)

lemma wf_set_Remove: "wf_set s \<Longrightarrow> wf_set (Remove s e t)"
  by (simp add: wf_set_def distinct_keys_def Remove_def store_def distinct_update split: option.splits)

lemma wf_set_fold_Add: "wf_set s \<Longrightarrow> wf_set (fold (\<lambda>(e, t) acc. Add acc e t) xs s)"
  by (induction xs arbitrary: s) (auto simp add: wf_set_Add)

lemma wf_set_fold_Remove: "wf_set s \<Longrightarrow> wf_set (fold (\<lambda>(e, t) acc. Remove acc e t) xs s)"
  by (induction xs arbitrary: s) (auto simp add: wf_set_Remove)

lemma wf_set_Merge: "wf_set s \<Longrightarrow> wf_set (Merge s other)"
  by (simp add: Merge_def wf_set_fold_Add wf_set_fold_Remove)

lemma wf_set_empty: "wf_set empty_set"
  by (simp add: wf_set_def distinct_keys_def empty_set_def)

lemma set_view_Merge:
  "wf_set other \<Longrightarrow> set_view (Merge s other) = join_view (set_view s) (set_view other)"
  by (simp add: set_view_def join_view_def wf_set_def distinct_keys_def add_Merge remove_Merge
      join_all_distinct fun_eq_iff)

lemma join_opt_idem: "join_opt a a = a"
  by (cases a) (simp_all add: join_opt_def)

lemma join_opt_commute: "join_opt a b = join_opt b a"
  by (cases a; cases b) (simp_all add: join_opt_def max.commute)

lemma join_opt_assoc: "join_opt (join_opt a b) c = join_opt a (join_opt b c)"
  by (cases a; cases b; cases c) (simp_all add: join_opt_def max.assoc)

lemma join_opt_None: "join_opt None b = b" "join_opt a None = a"
  by (cases a; simp add: join_opt_def)+

lemma join_view_idem: "join_view u u = u"
  by (simp add: join_view_def join_opt_idem)

lemma join_view_commute: "join_view u v = join_view v u"
  by (simp add: join_view_def join_opt_commute [of "fst u _"] join_opt_commute [of "snd u _"])

lemma join_view_assoc: "join_view (join_view u v) w = join_view u (join_view v w)"
  by (simp add: join_view_def join_opt_assoc)

lemma join_view_empty: "join_view (set_view empty_set) v = v"
  by (simp add: join_view_def set_view_def empty_set_def join_opt_None)

text \<open>The body of the loop of the graph's \<^verbatim>\<open>Merge\<close>, and what the loop leaves behind.\<close>

lemma fold_merge_vertices:
  "vertices (fold (\<lambda>(from, edge) acc.
       acc\<lparr>edges := store (edges acc) from (Merge (edge_set acc from) edge)\<rparr>) xs g) = vertices g"
  by (induction xs arbitrary: g) auto

lemma fold_merge_distinct:
  "distinct_keys (edges g) \<Longrightarrow>
   distinct_keys (edges (fold (\<lambda>(from, edge) acc.
       acc\<lparr>edges := store (edges acc) from (Merge (edge_set acc from) edge)\<rparr>) xs g))"
  by (induction xs arbitrary: g) (auto simp add: distinct_keys_def store_def distinct_update)

lemma fold_merge_edges:
  "distinct (map fst xs) \<Longrightarrow>
   map_of (edges (fold (\<lambda>(from, edge) acc.
       acc\<lparr>edges := store (edges acc) from (Merge (edge_set acc from) edge)\<rparr>) xs g)) k
   = (case map_of xs k of
        None \<Rightarrow> map_of (edges g) k
      | Some edge \<Rightarrow> Some (Merge (edge_set g k) edge))"
proof (induction xs arbitrary: g)
  case Nil
  show ?case by simp
next
  case (Cons x xs)
  obtain f e where x: "x = (f, e)" by (cases x)
  let ?g = "g\<lparr>edges := store (edges g) f (Merge (edge_set g f) e)\<rparr>"
  have later: "map_of xs f = None"
    using Cons.prems by (simp add: x map_of_eq_None_iff)
  have other: "edge_set ?g k = edge_set g k" if "k \<noteq> f"
    using that by (simp add: edge_set_def map_of_store)
  from Cons.prems have "distinct (map fst xs)" by simp
  from Cons.IH [OF this, of ?g] show ?case
    using later other by (auto simp add: x map_of_store split: option.splits)
qed

lemma vertices_MergeGraph: "vertices (MergeGraph g h) = Merge (vertices g) (vertices h)"
  by (simp add: MergeGraph_def fold_merge_vertices)

lemma edges_MergeGraph:
  "distinct_keys (edges h) \<Longrightarrow>
   map_of (edges (MergeGraph g h)) k
   = (case map_of (edges h) k of
        None \<Rightarrow> map_of (edges g) k
      | Some edge \<Rightarrow> Some (Merge (edge_set g k) edge))"
proof -
  have "edge_set (g\<lparr>vertices := v\<rparr>) k = edge_set g k" for v
    by (simp add: edge_set_def)
  then show "distinct_keys (edges h) \<Longrightarrow> ?thesis"
    by (simp add: MergeGraph_def distinct_keys_def fold_merge_edges split: option.splits)
qed

lemma wf_graph_MergeGraph:
  assumes "wf_graph g" and "wf_graph h"
  shows "wf_graph (MergeGraph g h)"
proof -
  have "wf_set (edge_set g k)" for k
    using assms(1) by (auto simp add: wf_graph_iff edge_set_def wf_set_empty split: option.splits)
  then have "wf_set es" if "map_of (edges (MergeGraph g h)) k = Some es" for k es
    using that assms
    by (auto simp add: wf_graph_iff edges_MergeGraph wf_set_Merge split: option.splits)
  moreover have "distinct_keys (edges (MergeGraph g h))"
    using assms(1) by (simp add: MergeGraph_def wf_graph_iff fold_merge_distinct)
  ultimately show ?thesis
    using assms(1) by (auto simp add: wf_graph_iff vertices_MergeGraph wf_set_Merge)
qed

lemma edges_view_MergeGraph:
  assumes "wf_graph h"
  shows "edges_view (MergeGraph g h) k
         = (case edges_view h k of
              None \<Rightarrow> edges_view g k
            | Some v \<Rightarrow> Some (case edges_view g k of None \<Rightarrow> v | Some u \<Rightarrow> join_view u v))"
  using assms
  by (auto simp add: edges_view_def wf_graph_iff edges_MergeGraph set_view_Merge edge_set_def
      join_view_empty split: option.splits)

lemma fold_Add_same:
  "\<forall>(e, t) \<in> set xs. map_of (add s) e = Some t \<Longrightarrow> fold (\<lambda>(e, t) acc. Add acc e t) xs s = s"
  by (induction xs) (auto simp add: Add_def store_def update_triv)

lemma fold_Remove_same:
  "\<forall>(e, t) \<in> set xs. map_of (remove s) e = Some t \<Longrightarrow>
   fold (\<lambda>(e, t) acc. Remove acc e t) xs s = s"
  by (induction xs) (auto simp add: Remove_def store_def update_triv)

lemma Merge_same: "wf_set s \<Longrightarrow> Merge s s = s"
  by (simp add: Merge_def wf_set_def distinct_keys_def fold_Add_same fold_Remove_same
      case_prod_beta)

lemma fold_merge_same:
  "\<forall>(from, edge) \<in> set xs. map_of (edges g) from = Some edge \<and> wf_set edge \<Longrightarrow>
   fold (\<lambda>(from, edge) acc.
       acc\<lparr>edges := store (edges acc) from (Merge (edge_set acc from) edge)\<rparr>) xs g = g"
  by (induction xs) (auto simp add: edge_set_def Merge_same store_def update_triv)

lemma MergeGraph_same: "wf_graph g \<Longrightarrow> MergeGraph g g = g"
proof -
  assume wf: "wf_graph g"
  then have "\<forall>(from, edge) \<in> set (edges g). map_of (edges g) from = Some edge \<and> wf_set edge"
    by (auto simp add: wf_graph_def distinct_keys_def list_all_iff)
  then show ?thesis
    using wf by (simp add: MergeGraph_def wf_graph_def Merge_same fold_merge_same)
qed

text \<open>
  C1. On well-formed graphs the graph's \<^verbatim>\<open>Merge\<close> is idempotent (merging a graph into
  itself leaves it as it is), commutative and associative, the results being compared with
  the graph's \<^verbatim>\<open>operator==\<close> on the raw vertex and edge maps.
\<close>

theorem MergeGraph_idempotent_commutative_associative:
  assumes "wf_graph a" and "wf_graph b" and "wf_graph c"
  shows "MergeGraph a a = a
       \<and> graph_eq (MergeGraph a a) a
       \<and> graph_eq (MergeGraph a b) (MergeGraph b a)
       \<and> graph_eq (MergeGraph (MergeGraph a b) c) (MergeGraph a (MergeGraph b c))"
proof -
  have idem: "MergeGraph a a = a"
    using assms(1) by (rule MergeGraph_same)
  have "graph_eq a a"
    using assms(1) by (simp add: graph_eq_iff)
  with idem have idem_eq: "graph_eq (MergeGraph a a) a"
    by simp
  have wf: "wf_set (vertices a)" "wf_set (vertices b)" "wf_set (vertices c)"
    using assms by (simp_all add: wf_graph_iff)
  have wfm: "wf_graph (MergeGraph a b)" "wf_graph (MergeGraph b a)" "wf_graph (MergeGraph b c)"
    "wf_graph (MergeGraph (MergeGraph a b) c)" "wf_graph (MergeGraph a (MergeGraph b c))"
    using assms by (simp_all add: wf_graph_MergeGraph)
  have "edges_view (MergeGraph a b) k = edges_view (MergeGraph b a) k" for k
    using assms
    by (cases "edges_view a k"; cases "edges_view b k")
      (simp_all add: edges_view_MergeGraph join_view_commute)
  then have comm: "graph_eq (MergeGraph a b) (MergeGraph b a)"
    using wf wfm
    by (simp add: graph_eq_iff vertices_MergeGraph set_view_Merge join_view_commute fun_eq_iff)
  have "edges_view (MergeGraph (MergeGraph a b) c) k = edges_view (MergeGraph a (MergeGraph b c)) k"
    for k
    using assms wfm
    by (cases "edges_view a k"; cases "edges_view b k"; cases "edges_view c k")
      (simp_all add: edges_view_MergeGraph join_view_assoc)
  then have assoc: "graph_eq (MergeGraph (MergeGraph a b) c) (MergeGraph a (MergeGraph b c))"
    using wf wfm
    by (simp add: graph_eq_iff vertices_MergeGraph set_view_Merge wf_set_Merge join_view_assoc
        fun_eq_iff)
  from idem idem_eq comm assoc show ?thesis by simp
qed

theorem MergeGraph_idempotent_commutative_associative_witness:
  "wf_graph (AddEdge (AddVertex (AddVertex (empty_graph :: (int, int) LWWElementGraph) 0 0) 1 1) 1 0 2)
   \<and> wf_graph (RemoveEdge (AddEdge (AddVertex (RemoveVertex (empty_graph :: (int, int) LWWElementGraph) 0 3) 1 3) 0 1 4) 1 0 5)
   \<and> wf_graph (AddEdge (AddVertex (empty_graph :: (int, int) LWWElementGraph) 2 2) 2 0 6)
   \<and> MergeGraph (AddEdge (AddVertex (AddVertex (empty_graph :: (int, int) LWWElementGraph) 0 0) 1 1) 1 0 2)
        (AddEdge (AddVertex (AddVertex (empty_graph :: (int, int) LWWElementGraph) 0 0) 1 1) 1 0 2)
      = AddEdge (AddVertex (AddVertex (empty_graph :: (int, int) LWWElementGraph) 0 0) 1 1) 1 0 2
   \<and> graph_eq
        (MergeGraph (AddEdge (AddVertex (AddVertex (empty_graph :: (int, int) LWWElementGraph) 0 0) 1 1) 1 0 2)
           (RemoveEdge (AddEdge (AddVertex (RemoveVertex (empty_graph :: (int, int) LWWElementGraph) 0 3) 1 3) 0 1 4) 1 0 5))
        (MergeGraph (RemoveEdge (AddEdge (AddVertex (RemoveVertex (empty_graph :: (int, int) LWWElementGraph) 0 3) 1 3) 0 1 4) 1 0 5)
           (AddEdge (AddVertex (AddVertex (empty_graph :: (int, int) LWWElementGraph) 0 0) 1 1) 1 0 2))
   \<and> graph_eq
        (MergeGraph
           (MergeGraph (AddEdge (AddVertex (AddVertex (empty_graph :: (int, int) LWWElementGraph) 0 0) 1 1) 1 0 2)
              (RemoveEdge (AddEdge (AddVertex (RemoveVertex (empty_graph :: (int, int) LWWElementGraph) 0 3) 1 3) 0 1 4) 1 0 5))
           (AddEdge (AddVertex (empty_graph :: (int, int) LWWElementGraph) 2 2) 2 0 6))
        (MergeGraph (AddEdge (AddVertex (AddVertex (empty_graph :: (int, int) LWWElementGraph) 0 0) 1 1) 1 0 2)
           (MergeGraph (RemoveEdge (AddEdge (AddVertex (RemoveVertex (empty_graph :: (int, int) LWWElementGraph) 0 3) 1 3) 0 1 4) 1 0 5)
              (AddEdge (AddVertex (empty_graph :: (int, int) LWWElementGraph) 2 2) 2 0 6)))"
proof -
  let ?a = "AddEdge (AddVertex (AddVertex (empty_graph :: (int, int) LWWElementGraph) 0 0) 1 1) 1 0 2"
  let ?b = "RemoveEdge (AddEdge (AddVertex (RemoveVertex (empty_graph :: (int, int) LWWElementGraph) 0 3) 1 3) 0 1 4) 1 0 5"
  let ?c = "AddEdge (AddVertex (empty_graph :: (int, int) LWWElementGraph) 2 2) 2 0 6"
  have a: "wf_graph ?a" by code_simp
  have b: "wf_graph ?b" by code_simp
  have c: "wf_graph ?c" by code_simp
  show ?thesis
    using MergeGraph_idempotent_commutative_associative [OF a b c] a b c by simp
qed

section \<open>Connectivity query and reachable states\<close>

text \<open>
  \<^verbatim>\<open>AllConnectedVertices\<close> visits existing entries of \<open>edges\<close> only and calls nothing but
  \<^verbatim>\<open>ContainsEdge\<close>, so it always returns.
\<close>

lemma for_each_total:
  "(\<And>x s. \<exists>s'. body x s = Inr s') \<Longrightarrow> \<exists>s'. for_each body xs s = Inr s'"
proof (induction xs arbitrary: s)
  case Nil
  show ?case by simp
next
  case (Cons x xs)
  from Cons.prems obtain s' where "body x s = Inr s'" by blast
  with Cons show ?case by simp
qed

lemma AllConnectedVertices_total: "\<exists>res. AllConnectedVertices g e = Inr res"
  unfolding AllConnectedVertices_def
  by (rule for_each_total) (auto intro!: for_each_total simp add: ContainsEdge_eq)

text \<open>
  Every graph that the operations build from the empty graph is well-formed.
\<close>

lemma wf_graph_empty: "wf_graph empty_graph"
  by (simp add: wf_graph_def empty_graph_def wf_set_empty distinct_keys_def)

lemma wf_graph_AddVertex: "wf_graph g \<Longrightarrow> wf_graph (AddVertex g e t)"
  by (simp add: wf_graph_def AddVertex_def wf_set_Add)

lemma wf_graph_RemoveVertex: "wf_graph g \<Longrightarrow> wf_graph (RemoveVertex g e t)"
  by (simp add: wf_graph_def RemoveVertex_def wf_set_Remove)

lemma wf_set_edge_set: "wf_graph g \<Longrightarrow> wf_set (edge_set g k)"
  by (auto simp add: wf_graph_iff edge_set_def wf_set_empty split: option.splits)

lemma wf_graph_store:
  assumes "wf_graph g" and "wf_set es"
  shows "wf_graph (g\<lparr>edges := store (edges g) k es\<rparr>)"
proof -
  have old: "wf_set es'" if "map_of (edges g) k' = Some es'" for k' es'
    using assms(1) that by (simp add: wf_graph_iff)
  have "wf_set es'" if "map_of (store (edges g) k es) k' = Some es'" for k' es'
    using that old [of k' es'] assms(2) by (simp add: map_of_store split: if_splits)
  moreover have "distinct_keys (store (edges g) k es)"
    using assms(1) by (simp add: wf_graph_iff distinct_keys_def store_def distinct_update)
  ultimately show ?thesis
    using assms(1) by (simp add: wf_graph_iff)
qed

lemma wf_graph_AddEdge: "wf_graph g \<Longrightarrow> wf_graph (AddEdge g from to t)"
  by (simp add: AddEdge_def wf_graph_store wf_set_edge_set wf_set_Add)

lemma wf_graph_RemoveEdge: "wf_graph g \<Longrightarrow> wf_graph (RemoveEdge g from to t)"
  by (simp add: RemoveEdge_def wf_graph_store wf_set_edge_set wf_set_Remove)

section \<open>The path search where no entry of the edge map is missing\<close>

text \<open>
  On a graph in which every target of a valid edge other than the destination, and the
  source unless it is the destination, has an entry in \<open>edges\<close>, \<^verbatim>\<open>AnyPath\<close> returns; the
  result is empty when an endpoint is absent or no route exists, and is a shortest route
  otherwise.
\<close>

lemma key_set_iff: "k \<in> key_set m \<longleftrightarrow> map_of m k \<noteq> None"
  by (simp add: key_set_def key_iff)

lemma key_set_snoc [simp]: "key_set (m @ [(k, v)]) = insert k (key_set m)"
  by (auto simp add: key_set_def)

lemma key_set_single [simp]: "key_set [(k, v)] = {k}"
  by (simp add: key_set_def)

lemma chain_snoc:
  "chain g p \<Longrightarrow> p \<noteq> [] \<Longrightarrow> ContainsEdge g (last p) v = Inr True \<Longrightarrow> chain g (p @ [v])"
  by (induction g p rule: chain.induct) auto

lemma chain_butlast: "chain g (p @ [v]) \<Longrightarrow> chain g p"
  by (induction g p rule: chain.induct) auto

lemma chain_last_edge:
  "chain g (p @ [v]) \<Longrightarrow> p \<noteq> [] \<Longrightarrow> ContainsEdge g (last p) v = Inr True"
  by (induction g p rule: chain.induct) auto

lemma search_tree_root: "search_tree g src prev lev \<Longrightarrow> src \<in> key_set prev"
  by (induction rule: search_tree.induct) simp_all

lemma search_tree_root_level: "search_tree g src prev lev \<Longrightarrow> lev src = 0"
  by (induction rule: search_tree.induct) (auto dest: search_tree_root)

lemma store_fresh: "map_of m k = None \<Longrightarrow> store m k v = m @ [(k, v)]"
  by (induction m) (auto simp add: store_def split: if_splits)

lemma map_of_append_fresh:
  "k \<notin> key_set m \<Longrightarrow> map_of (m @ (k, v) # rest) k = Some v"
  by (induction m) (auto simp add: key_set_def)

lemma path_back_search_tree:
  assumes "search_tree g src prev lev" and "e \<in> key_set prev"
  shows "\<exists>p. path_back src (prev @ ext) e acc = Some (p @ rev acc)
             \<and> route g src e p \<and> length p = Suc (lev e)"
  using assms
proof (induction arbitrary: e ext acc rule: search_tree.induct)
  case root
  then have "e = src" by simp
  then show ?case
    by (simp add: path_back.simps route_def)
next
  case (child prev lev u v)
  show ?case
  proof (cases "e \<in> key_set prev")
    case True
    with child.hyps(3) have "e \<noteq> v" by auto
    with child.IH [OF True, of "(v, u) # ext" acc] show ?thesis by simp
  next
    case False
    with child.prems have e: "e = v" by auto
    have "src \<in> key_set prev"
      using child.hyps(1) by (rule search_tree_root)
    with child.hyps(3) have ne: "v \<noteq> src" by auto
    from child.IH [OF child.hyps(2), of "(v, u) # ext" "acc @ [v]"]
    obtain p where p: "path_back src (prev @ (v, u) # ext) u (acc @ [v]) = Some (p @ rev (acc @ [v]))"
        "route g src u p" "length p = Suc (lev u)"
      by auto
    have look: "map_of (prev @ (v, u) # ext) v = Some u"
      using child.hyps(3) by (rule map_of_append_fresh)
    have "path_back src ((prev @ [(v, u)]) @ ext) e acc = Some ((p @ [v]) @ rev acc)"
      using p(1) ne look by (subst path_back.simps) (simp add: e)
    moreover have "route g src v (p @ [v])"
      using p(2) child.hyps(4) by (simp add: route_def chain_snoc)
    ultimately show ?thesis
      using p(3) e by (intro exI [of _ "p @ [v]"]) simp
  qed
qed

lemma targets_have_entriesD:
  assumes "targets_have_entries g dst" and "ContainsEdge g u v = Inr True"
  shows "v \<noteq> dst \<longrightarrow> map_of (edges g) v \<noteq> None"
proof -
  from assms(2) obtain es ea where es: "map_of (edges g) u = Some es" and "map_of (add es) v = Some ea"
    by (auto simp add: ContainsEdge_eq split: option.splits)
  then have "(u, es) \<in> set (edges g)" "(v, ea) \<in> set (add es)"
    by (auto dest: map_of_SomeD)
  with assms show ?thesis
    by (fastforce simp add: targets_have_entries_def list_all_iff)
qed

lemma valid_edge_listed:
  assumes "ContainsEdge g u v = Inr True" and "at (edges g) u = Inr es"
  shows "v \<in> key_set (GetAdd es)"
  using assms
  by (auto simp add: ContainsEdge_eq at_Inr_iff GetAdd_def key_set_iff split: option.splits)

lemma extends_refl: "extends prev lev queue prev lev queue"
  by (simp add: extends_def)

lemma extends_trans:
  "extends prev lev queue prev' lev' queue' \<Longrightarrow> extends prev' lev' queue' prev'' lev'' queue'' \<Longrightarrow>
   extends prev lev queue prev'' lev'' queue''"
  unfolding extends_def by (intro conjI) (blast, simp add: subset_iff, blast, blast)

lemma expanding_step:
  assumes "targets_have_entries g dst" and "expanding g src dst e queue prev lev"
    and "map_of prev n = None" and "ContainsEdge g e n = Inr True"
  shows "expanding g src dst e (queue @ [n]) (prev @ [(n, e)]) (lev(n := Suc (lev e)))"
    and "extends prev lev queue (prev @ [(n, e)]) (lev(n := Suc (lev e))) (queue @ [n])"
proof -
  from assms(3) have fresh: "n \<notin> key_set prev" by (simp add: key_set_iff)
  from assms(2) have inv: "search_tree g src prev lev" "e \<in> key_set prev"
      "set queue \<subseteq> key_set prev" "distinct queue" "e \<notin> set queue"
      "\<forall>x \<in> set queue. x \<noteq> dst \<longrightarrow> map_of (edges g) x \<noteq> None"
      "sorted (map lev queue)" "\<forall>x \<in> set queue. lev e \<le> lev x"
      "\<forall>v \<in> key_set prev. lev v \<le> Suc (lev e)"
    by (simp_all add: expanding_def)
  from fresh inv(2,3) have ne: "n \<noteq> e" "n \<notin> set queue" by auto
  have tree: "search_tree g src (prev @ [(n, e)]) (lev(n := Suc (lev e)))"
    using inv(1,2) fresh assms(4) by (rule search_tree.child)
  have entry: "n \<noteq> dst \<longrightarrow> map_of (edges g) n \<noteq> None"
    using assms(1,4) by (rule targets_have_entriesD)
  have same: "map (lev(n := Suc (lev e))) queue = map lev queue"
    using ne(2) by (induction queue) auto
  have "sorted (map lev queue @ [Suc (lev e)])"
    using inv(3,7,9) by (auto simp add: sorted_append)
  then have sorted: "sorted (map (lev(n := Suc (lev e))) (queue @ [n]))"
    by (simp add: same)
  show "expanding g src dst e (queue @ [n]) (prev @ [(n, e)]) (lev(n := Suc (lev e)))"
    unfolding expanding_def
  proof (intro conjI)
    show "search_tree g src (prev @ [(n, e)]) (lev(n := Suc (lev e)))" by (fact tree)
    show "e \<in> key_set (prev @ [(n, e)])" using inv(2) by simp
    show "set (queue @ [n]) \<subseteq> key_set (prev @ [(n, e)])" using inv(3) by auto
    show "distinct (queue @ [n])" using inv(4) ne(2) by simp
    show "e \<notin> set (queue @ [n])" using inv(5) ne(1) by simp
    show "\<forall>x \<in> set (queue @ [n]). x \<noteq> dst \<longrightarrow> map_of (edges g) x \<noteq> None"
      using inv(6) entry by simp
    show "sorted (map (lev(n := Suc (lev e))) (queue @ [n]))" by (fact sorted)
    show "\<forall>x \<in> set (queue @ [n]). (lev(n := Suc (lev e))) e \<le> (lev(n := Suc (lev e))) x"
      using inv(8) ne by simp
    show "\<forall>v \<in> key_set (prev @ [(n, e)]). (lev(n := Suc (lev e))) v \<le> Suc ((lev(n := Suc (lev e))) e)"
      using inv(9) ne(1) by auto
  qed
  show "extends prev lev queue (prev @ [(n, e)]) (lev(n := Suc (lev e))) (queue @ [n])"
    using fresh by (auto simp add: extends_def)
qed

lemma expand_search_tree:
  assumes "targets_have_entries g dst" and "expanding g src dst e queue prev lev"
  shows "\<exists>queue' prev' lev'. expand g e xs (queue, prev) = Inr (queue', prev')
           \<and> expanding g src dst e queue' prev' lev'
           \<and> extends prev lev queue prev' lev' queue'
           \<and> (\<forall>n \<in> key_set xs. ContainsEdge g e n = Inr True \<longrightarrow> n \<in> key_set prev')"
  using assms(2)
proof (induction xs arbitrary: queue prev lev)
  case Nil
  then show ?case
    using extends_refl [of prev lev queue] by (auto simp add: key_set_def)
next
  case (Cons x xs)
  obtain n t where x: "x = (n, t)" by (cases x)
  have keys: "key_set (x # xs) = insert n (key_set xs)"
    by (simp add: x key_set_def)
  show ?case
  proof (cases "map_of prev n = None \<and> ContainsEdge g e n = Inr True")
    case True
    let ?prev = "prev @ [(n, e)]" and ?lev = "lev(n := Suc (lev e))" and ?queue = "queue @ [n]"
    have step: "expanding g src dst e ?queue ?prev ?lev" "extends prev lev queue ?prev ?lev ?queue"
      using expanding_step [OF assms(1) Cons.prems] True by simp_all
    from Cons.IH [OF step(1)] obtain queue' prev' lev' where
      rest: "expand g e xs (?queue, ?prev) = Inr (queue', prev')"
        "expanding g src dst e queue' prev' lev'"
        "extends ?prev ?lev ?queue prev' lev' queue'"
        "\<forall>n \<in> key_set xs. ContainsEdge g e n = Inr True \<longrightarrow> n \<in> key_set prev'"
      by blast
    have "expand g e (x # xs) (queue, prev) = Inr (queue', prev')"
      using True rest(1) by (simp add: x store_fresh)
    moreover have "extends prev lev queue prev' lev' queue'"
      using step(2) rest(3) by (rule extends_trans)
    moreover have "n \<in> key_set prev'"
      using rest(3) by (auto simp add: extends_def)
    ultimately show ?thesis
      using rest(2,4) by (auto simp add: keys)
  next
    case False
    have "\<exists>b. ContainsEdge g e n = Inr b" by (simp add: ContainsEdge_eq)
    with False have same: "expand g e (x # xs) (queue, prev) = expand g e xs (queue, prev)"
      by (cases "map_of prev n") (auto simp add: x)
    from Cons.IH [OF Cons.prems] obtain queue' prev' lev' where
      rest: "expand g e xs (queue, prev) = Inr (queue', prev')"
        "expanding g src dst e queue' prev' lev'"
        "extends prev lev queue prev' lev' queue'"
        "\<forall>n \<in> key_set xs. ContainsEdge g e n = Inr True \<longrightarrow> n \<in> key_set prev'"
      by blast
    have "n \<in> key_set prev" if "ContainsEdge g e n = Inr True"
      using False that by (simp add: key_set_iff)
    then have "ContainsEdge g e n = Inr True \<longrightarrow> n \<in> key_set prev'"
      using rest(3) unfolding extends_def by blast
    then show ?thesis
      using same rest by (auto simp add: keys)
  qed
qed

lemma searchingD:
  assumes "searching g src dst queue prev lev"
  shows "search_tree g src prev lev" and "set queue \<subseteq> key_set prev" and "distinct queue"
    and "\<forall>x \<in> set queue. x \<noteq> dst \<longrightarrow> map_of (edges g) x \<noteq> None"
    and "sorted (map lev queue)"
    and "queue \<noteq> [] \<Longrightarrow> v \<in> key_set prev \<Longrightarrow> lev v \<le> Suc (lev (hd queue))"
    and "u \<in> key_set prev \<Longrightarrow> u \<notin> set queue \<Longrightarrow> u \<noteq> dst"
    and "u \<in> key_set prev \<Longrightarrow> u \<notin> set queue \<Longrightarrow> ContainsEdge g u w = Inr True \<Longrightarrow>
         w \<in> key_set prev \<and> lev w \<le> Suc (lev u)"
proof -
  from assms have all: "search_tree g src prev lev
      \<and> set queue \<subseteq> key_set prev \<and> distinct queue
      \<and> (\<forall>x \<in> set queue. x \<noteq> dst \<longrightarrow> map_of (edges g) x \<noteq> None)
      \<and> sorted (map lev queue)
      \<and> (queue \<noteq> [] \<longrightarrow> (\<forall>v \<in> key_set prev. lev v \<le> Suc (lev (hd queue))))
      \<and> (\<forall>u \<in> key_set prev - set queue.
            u \<noteq> dst \<and> (\<forall>v. ContainsEdge g u v = Inr True
                           \<longrightarrow> v \<in> key_set prev \<and> lev v \<le> Suc (lev u)))"
    unfolding searching_def .
  from all show "search_tree g src prev lev" by (elim conjE)
  from all show "set queue \<subseteq> key_set prev" by (elim conjE)
  from all show "distinct queue" by (elim conjE)
  from all show "\<forall>x \<in> set queue. x \<noteq> dst \<longrightarrow> map_of (edges g) x \<noteq> None" by (elim conjE)
  from all show "sorted (map lev queue)" by (elim conjE)
  from all have "queue \<noteq> [] \<longrightarrow> (\<forall>v \<in> key_set prev. lev v \<le> Suc (lev (hd queue)))"
    by (elim conjE)
  then show "queue \<noteq> [] \<Longrightarrow> v \<in> key_set prev \<Longrightarrow> lev v \<le> Suc (lev (hd queue))"
    by simp
  from all have closed: "\<forall>u \<in> key_set prev - set queue.
            u \<noteq> dst \<and> (\<forall>v. ContainsEdge g u v = Inr True
                           \<longrightarrow> v \<in> key_set prev \<and> lev v \<le> Suc (lev u))"
    by (elim conjE)
  then show "u \<in> key_set prev \<Longrightarrow> u \<notin> set queue \<Longrightarrow> u \<noteq> dst"
    by simp
  from closed show "u \<in> key_set prev \<Longrightarrow> u \<notin> set queue \<Longrightarrow> ContainsEdge g u w = Inr True \<Longrightarrow>
         w \<in> key_set prev \<and> lev w \<le> Suc (lev u)"
    by simp
qed

lemma searching_pop:
  assumes "searching g src dst (e # queue) prev lev"
  shows "expanding g src dst e queue prev lev"
proof -
  note inv = searchingD [OF assms]
  have "\<forall>v \<in> key_set prev. lev v \<le> Suc (lev e)"
    using inv(6) by simp
  moreover have "sorted (map lev queue)" "\<forall>x \<in> set queue. lev e \<le> lev x"
    using inv(5) by simp_all
  moreover have "e \<in> key_set prev" "set queue \<subseteq> key_set prev" "distinct queue" "e \<notin> set queue"
    using inv(2,3) by simp_all
  moreover have "\<forall>x \<in> set queue. x \<noteq> dst \<longrightarrow> map_of (edges g) x \<noteq> None"
    using inv(4) by simp
  ultimately show ?thesis
    unfolding expanding_def using inv(1) by (intro conjI)
qed

lemma searching_next:
  assumes "searching g src dst (e # queue) prev lev" and "e \<noteq> dst"
    and "expanding g src dst e queue' prev' lev'"
    and "extends prev lev queue prev' lev' queue'"
    and "\<forall>v. ContainsEdge g e v = Inr True \<longrightarrow> v \<in> key_set prev'"
  shows "searching g src dst queue' prev' lev'"
proof -
  from assms(3) have inv: "search_tree g src prev' lev'" "e \<in> key_set prev'"
      "set queue' \<subseteq> key_set prev'" "distinct queue'" "e \<notin> set queue'"
      "\<forall>x \<in> set queue'. x \<noteq> dst \<longrightarrow> map_of (edges g) x \<noteq> None"
      "sorted (map lev' queue')" "\<forall>x \<in> set queue'. lev' e \<le> lev' x"
      "\<forall>v \<in> key_set prev'. lev' v \<le> Suc (lev' e)"
    by (simp_all add: expanding_def)
  from assms(4) have ext: "key_set prev \<subseteq> key_set prev'" "\<forall>v \<in> key_set prev. lev' v = lev v"
      "set queue \<subseteq> set queue'" "key_set prev' - key_set prev \<subseteq> set queue'"
    by (simp_all add: extends_def)
  note old = searchingD(7,8) [OF assms(1)]
  have front: "queue' \<noteq> [] \<longrightarrow> (\<forall>v \<in> key_set prev'. lev' v \<le> Suc (lev' (hd queue')))"
  proof (intro impI ballI)
    fix v assume "queue' \<noteq> []" and v: "v \<in> key_set prev'"
    then have "lev' e \<le> lev' (hd queue')" using inv(8) by simp
    moreover from inv(9) v have "lev' v \<le> Suc (lev' e)" by simp
    ultimately show "lev' v \<le> Suc (lev' (hd queue'))" by simp
  qed
  have expanded: "\<forall>u \<in> key_set prev' - set queue'. u \<noteq> dst \<and> (\<forall>v. ContainsEdge g u v = Inr True
                \<longrightarrow> v \<in> key_set prev' \<and> lev' v \<le> Suc (lev' u))"
  proof (intro ballI conjI allI impI)
    fix u assume u: "u \<in> key_set prev' - set queue'"
    show "u \<noteq> dst"
    proof (cases "u = e")
      case True
      then show ?thesis using assms(2) by simp
    next
      case False
      from u ext(3,4) have "u \<in> key_set prev" "u \<notin> set queue" by auto
      with False show ?thesis using old(1) [of u] by simp
    qed
  next
    fix u v assume u: "u \<in> key_set prev' - set queue'" and edge: "ContainsEdge g u v = Inr True"
    show "v \<in> key_set prev'"
    proof (cases "u = e")
      case True
      then show ?thesis using assms(5) edge by simp
    next
      case False
      from u ext(3,4) have "u \<in> key_set prev" "u \<notin> set queue" by auto
      with False edge have "v \<in> key_set prev" using old(2) [of u v] by simp
      with ext(1) show ?thesis by auto
    qed
  next
    fix u v assume u: "u \<in> key_set prev' - set queue'" and edge: "ContainsEdge g u v = Inr True"
    show "lev' v \<le> Suc (lev' u)"
    proof (cases "u = e")
      case True
      have "v \<in> key_set prev'" using assms(5) edge True by simp
      with inv(9) True show ?thesis by simp
    next
      case False
      from u ext(3,4) have mem: "u \<in> key_set prev" "u \<notin> set queue" by auto
      with False edge have "v \<in> key_set prev" "lev v \<le> Suc (lev u)"
        using old(2) [of u v] by simp_all
      with ext(2) mem(1) show ?thesis by simp
    qed
  qed
  show ?thesis
    unfolding searching_def using inv(1,3,4,6,7) front expanded by (intro conjI)
qed

lemma route_levels:
  assumes "searching g src dst (dst # queue) prev lev"
    and "c \<noteq> []" and "hd c = src" and "chain g c" and "length c \<le> lev dst"
  shows "last c \<in> key_set prev \<and> Suc (lev (last c)) \<le> length c"
  using assms(2-)
proof (induction c rule: rev_induct)
  case Nil
  then show ?case by simp
next
  case (snoc x c)
  note inv = searchingD [OF assms(1)]
  show ?case
  proof (cases "c = []")
    case True
    with snoc.prems have "x = src" by simp
    then show ?thesis
      using search_tree_root [OF inv(1)] search_tree_root_level [OF inv(1)] True by simp
  next
    case False
    with snoc.prems have "hd c = src" "chain g c" "length c \<le> lev dst"
      by (auto dest: chain_butlast)
    with snoc.IH False have y: "last c \<in> key_set prev" "Suc (lev (last c)) \<le> length c"
      by auto
    from snoc.prems(4) y(2) have below: "lev (last c) < lev dst" by simp
    have "\<forall>q \<in> set (dst # queue). lev dst \<le> lev q"
      using inv(5) by simp
    with below have "last c \<notin> set (dst # queue)" by auto
    moreover have "ContainsEdge g (last c) x = Inr True"
      using snoc.prems(3) False by (rule chain_last_edge)
    ultimately have "x \<in> key_set prev \<and> lev x \<le> Suc (lev (last c))"
      using y(1) by (intro inv(8))
    then show ?thesis
      using y(2) by simp
  qed
qed

lemma closed_routes:
  assumes "searching g src dst [] prev lev"
    and "c \<noteq> []" and "hd c = src" and "chain g c"
  shows "last c \<in> key_set prev"
  using assms(2-)
proof (induction c rule: rev_induct)
  case Nil
  then show ?case by simp
next
  case (snoc x c)
  note inv = searchingD [OF assms(1)]
  show ?case
  proof (cases "c = []")
    case True
    with snoc.prems have "x = src" by simp
    then show ?thesis
      using search_tree_root [OF inv(1)] by simp
  next
    case False
    with snoc.prems have "hd c = src" "chain g c"
      by (auto dest: chain_butlast)
    with snoc.IH False have "last c \<in> key_set prev" by auto
    moreover have "ContainsEdge g (last c) x = Inr True"
      using snoc.prems(3) False by (rule chain_last_edge)
    ultimately have "x \<in> key_set prev \<and> lev x \<le> Suc (lev (last c))"
      by (intro inv(8)) simp_all
    then show ?thesis by simp
  qed
qed

lemma bfs_correct:
  assumes "targets_have_entries g dst" and "searching g src dst queue prev lev"
  shows "\<exists>p. bfs g src dst queue prev = Some (Inr p)
           \<and> (if \<exists>c. route g src dst c
               then route g src dst p \<and> (\<forall>c. route g src dst c \<longrightarrow> length p \<le> length c)
               else p = [])"
  using assms
proof (induction g src dst queue prev arbitrary: lev rule: bfs.induct)
  case (1 g src dst prev)
  have "\<not> route g src dst c" for c
  proof
    assume "route g src dst c"
    then have "dst \<in> key_set prev"
      using closed_routes [OF "1.prems"(2), of c] by (simp add: route_def)
    then show False
      using searchingD(7) [OF "1.prems"(2), of dst] by simp
  qed
  then show ?case by simp
next
  case (2 g src dst e queue prev)
  note inv = searchingD [OF "2.prems"(2)]
  show ?case
  proof (cases "e = dst")
    case True
    have "e \<in> key_set prev" using inv(2) by simp
    from path_back_search_tree [OF inv(1) this, of "[]" "[]"]
    obtain p where p: "path_back src prev e [] = Some p" "route g src e p" "length p = Suc (lev e)"
      by auto
    have "length p \<le> length c" if "route g src dst c" for c
    proof (rule ccontr)
      assume "\<not> length p \<le> length c"
      with p(3) True have short: "length c \<le> lev dst" by simp
      from that have "c \<noteq> []" "hd c = src" "chain g c" "last c = dst"
        by (simp_all add: route_def)
      with route_levels [OF "2.prems"(2) [unfolded True] this(1,2,3) short] short
      show False by simp
    qed
    with p True show ?thesis by auto
  next
    case False
    with inv(4) obtain es where es: "at (edges g) e = Inr es"
      by (auto simp add: at_def)
    from expand_search_tree [OF "2.prems"(1) searching_pop [OF "2.prems"(2)], of "GetAdd es"]
    obtain queue' prev' lev' where ex: "expand g e (GetAdd es) (queue, prev) = Inr (queue', prev')"
        "expanding g src dst e queue' prev' lev'" "extends prev lev queue prev' lev' queue'"
        "\<forall>n \<in> key_set (GetAdd es). ContainsEdge g e n = Inr True \<longrightarrow> n \<in> key_set prev'"
      by blast
    have "\<forall>v. ContainsEdge g e v = Inr True \<longrightarrow> v \<in> key_set prev'"
      using ex(4) es by (auto dest: valid_edge_listed)
    with "2.prems"(2) False ex(2,3) have "searching g src dst queue' prev' lev'"
      by (rule searching_next)
    from "2.IH" [OF False es ex(1) refl "2.prems"(1) this] show ?thesis
      using False es ex(1) by simp
  qed
qed

lemma AnyPath_with_entries:
  assumes "targets_have_entries g to" and "from = to \<or> map_of (edges g) from \<noteq> None"
  shows "\<exists>p. AnyPath g from to = Some (Inr p)
           \<and> (if ContainsVertex g from = Inr True \<and> ContainsVertex g to = Inr True
                  \<and> (\<exists>c. route g from to c)
               then route g from to p \<and> (\<forall>c. route g from to c \<longrightarrow> length p \<le> length c)
               else p = [])"
proof (cases "ContainsVertex g from = Inr True \<and> ContainsVertex g to = Inr True")
  case False
  then have "AnyPath g from to = Some (Inr [])"
    by (auto simp add: AnyPath_def ContainsVertex_def Contains_eq)
  with False show ?thesis by auto
next
  case True
  have "search_tree g from [(from, from)] (\<lambda>v. 0)"
    by (rule search_tree.root)
  then have "searching g from to [from] [(from, from)] (\<lambda>v. 0)"
    using assms(2) unfolding searching_def by auto
  from bfs_correct [OF assms(1) this]
  show ?thesis
    using True by (simp add: AnyPath_def store_def)
qed

text \<open>
  The graph of the path-search test: vertices \<open>0\<close> to \<open>3\<close>, edges \<open>0 \<rightarrow> 1\<close>, \<open>0 \<rightarrow> 2\<close>,
  \<open>1 \<rightarrow> 3\<close>, \<open>2 \<rightarrow> 3\<close>; then edge \<open>0 \<rightarrow> 1\<close> removed; then edge \<open>2 \<rightarrow> 3\<close> removed.
  Vertex \<open>3\<close> has no entry in \<open>edges\<close>, but it is the destination and is never expanded.
\<close>

lemma AnyPath_test_graph:
  "AnyPath (AddEdge (AddEdge (AddEdge (AddEdge (AddVertex (AddVertex (AddVertex (AddVertex
      (empty_graph :: (int, int) LWWElementGraph) 0 0) 1 1) 2 2) 3 3) 0 1 4) 0 2 5) 1 3 6) 2 3 7) 0 3
     = Some (Inr [0, 1, 3])
   \<and> AnyPath (RemoveEdge (AddEdge (AddEdge (AddEdge (AddEdge (AddVertex (AddVertex (AddVertex (AddVertex
      (empty_graph :: (int, int) LWWElementGraph) 0 0) 1 1) 2 2) 3 3) 0 1 4) 0 2 5) 1 3 6) 2 3 7) 0 1 8) 0 3
     = Some (Inr [0, 2, 3])
   \<and> AnyPath (RemoveEdge (RemoveEdge (AddEdge (AddEdge (AddEdge (AddEdge (AddVertex (AddVertex (AddVertex (AddVertex
      (empty_graph :: (int, int) LWWElementGraph) 0 0) 1 1) 2 2) 3 3) 0 1 4) 0 2 5) 1 3 6) 2 3 7) 0 1 8) 2 3 9) 0 3
     = Some (Inr [])"
  by code_simp

end
